theory Spec2Isabelle
  imports Main
begin

section \<open>Python string primitives used by generate-chunks.py\<close>

text \<open>
  A Python \<open>str\<close> is modelled as a \<open>string\<close>; one \<open>char\<close> stands for one code point
  in the range 0..255. On that range \<open>str.isspace\<close> holds exactly for the code points
  9..13, 28..31, 32, 133 and 160; \<open>str.split()\<close> and \<open>str.strip()\<close> both use it.
\<close>

abbreviation NL :: char where
  "NL \<equiv> CHR 0x0A"

definition is_space :: "char \<Rightarrow> bool" where
  "is_space c = (c \<in> set [CHR 0x09, CHR 0x0A, CHR 0x0B, CHR 0x0C, CHR 0x0D,
                             CHR 0x1C, CHR 0x1D, CHR 0x1E, CHR 0x1F, CHR 0x20,
                             CHR 0x85, CHR 0xA0])"

text \<open>\<open>split_fields\<close> cuts at every whitespace character (empty fields included);
  \<open>py_split\<close> is \<open>str.split()\<close>: the non-empty fields.\<close>

fun split_fields :: "string \<Rightarrow> string list" where
  "split_fields [] = [[]]"
| "split_fields (c # cs) =
     (if is_space c then [] # split_fields cs
      else (case split_fields cs of w # ws \<Rightarrow> (c # w) # ws | [] \<Rightarrow> [[c]]))"

definition py_split :: "string \<Rightarrow> string list" where
  "py_split s = filter (\<lambda>w. w \<noteq> []) (split_fields s)"

text \<open>\<open>str.strip()\<close>.\<close>

definition py_strip :: "string \<Rightarrow> string" where
  "py_strip s = rev (dropWhile is_space (rev (dropWhile is_space s)))"

text \<open>\<open>str.split('\n\n')\<close>: cut at every non-overlapping blank-line separator, scanning
  from the left; the result is never empty.\<close>

fun split_paragraphs :: "string \<Rightarrow> string list" where
  "split_paragraphs [] = [[]]"
| "split_paragraphs [c] = [[c]]"
| "split_paragraphs (a # b # cs) =
     (if a = NL \<and> b = NL then [] # split_paragraphs cs
      else (case split_paragraphs (b # cs) of p # ps \<Rightarrow> (a # p) # ps | [] \<Rightarrow> [[a]]))"

section \<open>obtainTextSnippets__Markdown\<close>

subsection \<open>word_count\<close>

definition word_count :: "string \<Rightarrow> nat" where
  "word_count text = length (py_split text)"

subsection \<open>split_by_heading\<close>

text \<open>
  The pattern is \<open>(?<=\n)(LEVEL .+)\<close> with \<open>LEVEL\<close> one of \<open>##\<close>, \<open>###\<close>, \<open>####\<close>
  (no regex metacharacter, no letter). A match starts right after a newline, reads the
  level marker, one blank and at least one character other than newline, and runs
  greedily to the end of the line. \<open>heading_at\<close> says that the text \<open>r\<close> starts with a
  match; \<open>heading_text\<close> is the matched line and \<open>heading_rest\<close> what follows it.
\<close>

definition heading_at :: "string \<Rightarrow> string \<Rightarrow> bool" where
  "heading_at heading_level r =
     (take (length heading_level + 1) r = heading_level @ '' '' \<and>
      (case drop (length heading_level + 1) r of [] \<Rightarrow> False | c # _ \<Rightarrow> c \<noteq> NL))"

definition heading_text :: "string \<Rightarrow> string \<Rightarrow> string" where
  "heading_text heading_level r =
     take (length heading_level + 1) r @
     takeWhile (\<lambda>c. c \<noteq> NL) (drop (length heading_level + 1) r)"

definition heading_rest :: "string \<Rightarrow> string \<Rightarrow> string" where
  "heading_rest heading_level r =
     dropWhile (\<lambda>c. c \<noteq> NL) (drop (length heading_level + 1) r)"

text \<open>
  \<open>pattern.split\<close> with one capturing group returns the text before the first match,
  then for every match the matched line and the text up to the next match. The flag
  \<open>nl\<close> says that the character before the current position is a newline (the
  lookbehind); it is false at the start of the text and right after a match.
\<close>

function split_from :: "string \<Rightarrow> bool \<Rightarrow> string \<Rightarrow> string list" where
  "split_from heading_level nl [] = [[]]"
| "split_from heading_level nl (c # cs) =
     (if nl \<and> heading_at heading_level (c # cs)
      then [] # heading_text heading_level (c # cs)
              # split_from heading_level False (heading_rest heading_level (c # cs))
      else (case split_from heading_level (c = NL) cs of
              p # ps \<Rightarrow> (c # p) # ps
            | [] \<Rightarrow> [[c]]))"
  by pat_completeness auto
termination
proof (relation "measure (\<lambda>(l, nl, s). length s)")
  show "wf (measure (\<lambda>(l, nl, s). length s))" by simp
next
  fix heading_level :: string and nl :: bool and c :: char and cs :: string
  have "length (dropWhile (\<lambda>c. c \<noteq> NL) (drop (length heading_level + 1) (c # cs)))
          \<le> length (drop (length heading_level + 1) (c # cs))"
    by (rule length_dropWhile_le)
  also have "\<dots> < length (c # cs)" by simp
  finally show "((heading_level, False, heading_rest heading_level (c # cs)),
                 (heading_level, nl, c # cs)) \<in> measure (\<lambda>(l, nl, s). length s)"
    by (simp add: heading_rest_def)
next
  fix heading_level :: string and nl :: bool and c :: char and cs :: string
  show "((heading_level, c = NL, cs), (heading_level, nl, c # cs))
          \<in> measure (\<lambda>(l, nl, s). length s)"
    by simp
qed

definition split_by_heading :: "string \<Rightarrow> string \<Rightarrow> string list" where
  "split_by_heading content heading_level = split_from heading_level False content"

subsection \<open>create_chunks\<close>

text \<open>\<open>re.match(rf'^{heading_level} ', piece.strip())\<close>: the stripped piece starts with
  the level marker followed by one blank.\<close>

definition starts_heading :: "string \<Rightarrow> string \<Rightarrow> bool" where
  "starts_heading heading_level piece =
     (take (length heading_level + 1) (py_strip piece) = heading_level @ '' '')"

text \<open>
  The loop state is \<open>(chunks, current_chunk, current_word_count)\<close>. \<open>heading_flush\<close> is
  the first \<open>if\<close> of the loop body, \<open>add_piece\<close> the second; \<open>chunk_loop\<close> is the
  \<open>for\<close> loop and \<open>last_chunk\<close> the code after it.
\<close>

type_synonym chunk_state = "string list \<times> string \<times> nat"

definition heading_flush :: "nat \<Rightarrow> string \<Rightarrow> string \<Rightarrow> chunk_state \<Rightarrow> chunk_state" where
  "heading_flush min_words heading_level piece st =
     (case st of (chunks, current_chunk, current_word_count) \<Rightarrow>
        if starts_heading heading_level piece \<and> current_word_count \<ge> min_words
        then (chunks @ [py_strip current_chunk], [], 0)
        else st)"

definition add_piece :: "nat \<Rightarrow> nat \<Rightarrow> string \<Rightarrow> chunk_state \<Rightarrow> chunk_state" where
  "add_piece min_words max_words piece st =
     (case st of (chunks, current_chunk, current_word_count) \<Rightarrow>
        if current_word_count + word_count piece > max_words \<and> current_word_count \<ge> min_words
        then (chunks @ [py_strip current_chunk], py_strip piece, word_count piece)
        else (chunks, current_chunk @ piece @ [NL], current_word_count + word_count piece))"

fun chunk_loop :: "nat \<Rightarrow> nat \<Rightarrow> string \<Rightarrow> string list \<Rightarrow> chunk_state \<Rightarrow> chunk_state" where
  "chunk_loop min_words max_words heading_level [] st = st"
| "chunk_loop min_words max_words heading_level (piece # pieces) st =
     chunk_loop min_words max_words heading_level pieces
       (add_piece min_words max_words piece (heading_flush min_words heading_level piece st))"

definition last_chunk :: "nat \<Rightarrow> chunk_state \<Rightarrow> string list" where
  "last_chunk min_final_words st =
     (case st of (chunks, current_chunk, current_word_count) \<Rightarrow>
        if py_strip current_chunk \<noteq> [] then
          if current_word_count < min_final_words \<and> chunks \<noteq> []
          then butlast chunks @ [last chunks @ [NL] @ py_strip current_chunk]
          else chunks @ [py_strip current_chunk]
        else chunks)"

definition create_chunks :: "nat \<Rightarrow> nat \<Rightarrow> nat \<Rightarrow> string list \<Rightarrow> string \<Rightarrow> string list" where
  "create_chunks min_words max_words min_final_words content_pieces heading_level =
     last_chunk min_final_words
       (chunk_loop min_words max_words heading_level content_pieces ([], [], 0))"

subsection \<open>The four passes\<close>

text \<open>
  The nested loops of the function body, innermost first: a level-4 chunk over
  \<open>max_words\<close> is cut at blank lines and grouped with the default marker \<open>##\<close>; a
  level-3 chunk over \<open>max_words\<close> is split at \<open>####\<close>; a level-2 chunk over \<open>max_words\<close>
  is split at \<open>###\<close>.
\<close>

definition split_paragraph_level :: "nat \<Rightarrow> nat \<Rightarrow> nat \<Rightarrow> string \<Rightarrow> string list" where
  "split_paragraph_level min_words max_words min_final_words sub_sub_chunk =
     (if word_count sub_sub_chunk > max_words
      then create_chunks min_words max_words min_final_words
             (split_paragraphs sub_sub_chunk) ''##''
      else [sub_sub_chunk])"

definition split_h4_level :: "nat \<Rightarrow> nat \<Rightarrow> nat \<Rightarrow> string \<Rightarrow> string list" where
  "split_h4_level min_words max_words min_final_words sub_chunk =
     (if word_count sub_chunk > max_words
      then concat (map (split_paragraph_level min_words max_words min_final_words)
             (create_chunks min_words max_words min_final_words
                (split_by_heading sub_chunk ''####'') ''####''))
      else [sub_chunk])"

definition split_h3_level :: "nat \<Rightarrow> nat \<Rightarrow> nat \<Rightarrow> string \<Rightarrow> string list" where
  "split_h3_level min_words max_words min_final_words chunk =
     (if word_count chunk > max_words
      then concat (map (split_h4_level min_words max_words min_final_words)
             (create_chunks min_words max_words min_final_words
                (split_by_heading chunk ''###'') ''###''))
      else [chunk])"

definition obtainTextSnippets__Markdown :: "string \<Rightarrow> nat \<Rightarrow> nat \<Rightarrow> nat \<Rightarrow> string list" where
  "obtainTextSnippets__Markdown content min_words max_words min_final_words =
     concat (map (split_h3_level min_words max_words min_final_words)
       (create_chunks min_words max_words min_final_words
          (split_by_heading content ''##'') ''##''))"

text \<open>The call of \<open>chunkizeLearningPath\<close> uses the default thresholds.\<close>

definition text_snippets :: "string \<Rightarrow> string list" where
  "text_snippets markdown = obtainTextSnippets__Markdown markdown 300 500 200"

text \<open>
  \<open>has_heading\<close> says that the pattern of \<open>split_by_heading\<close> matches somewhere in the
  text: some line after a newline starts with the marker, a blank and one more character
  of that line. It is used to state which documents have no heading of a level.
\<close>

fun has_heading :: "string \<Rightarrow> bool \<Rightarrow> string \<Rightarrow> bool" where
  "has_heading heading_level nl [] = False"
| "has_heading heading_level nl (c # cs) =
     ((nl \<and> heading_at heading_level (c # cs)) \<or> has_heading heading_level (c = NL) cs)"

text \<open>
  \<open>flush_on_heading\<close> is the condition of the heading-triggered flush (the two nested
  \<open>if\<close>s at the top of the loop body); \<open>heading_flushes\<close> counts how often it holds
  while \<open>chunk_loop\<close> runs.
\<close>

definition flush_on_heading :: "nat \<Rightarrow> string \<Rightarrow> string \<Rightarrow> chunk_state \<Rightarrow> bool" where
  "flush_on_heading min_words heading_level piece st =
     (case st of (chunks, current_chunk, current_word_count) \<Rightarrow>
        starts_heading heading_level piece \<and> current_word_count \<ge> min_words)"

fun heading_flushes :: "nat \<Rightarrow> nat \<Rightarrow> string \<Rightarrow> string list \<Rightarrow> chunk_state \<Rightarrow> nat" where
  "heading_flushes min_words max_words heading_level [] st = 0"
| "heading_flushes min_words max_words heading_level (piece # pieces) st =
     (if flush_on_heading min_words heading_level piece st then 1 else 0) +
     heading_flushes min_words max_words heading_level pieces
       (add_piece min_words max_words piece (heading_flush min_words heading_level piece st))"

text \<open>
  For the size bounds of the chunks: the characters of a text other than whitespace, the
  word counts of a list of fragments added up (what \<open>current_word_count\<close> holds for
  the fragments of the current chunk), a chunk built, up to whitespace, from a list of
  fragments, and the invariant of \<open>chunk_loop\<close>: the closed chunks are built from groups
  \<open>gs\<close> of fragments that total at least \<open>min_words\<close> each, and the current chunk from
  the group \<open>g\<close>, whose total is the running count.
\<close>

definition nospace :: "string \<Rightarrow> string" where
  "nospace s = filter (\<lambda>c. \<not> is_space c) s"

definition total_words :: "string list \<Rightarrow> nat" where
  "total_words fragments = sum_list (map word_count fragments)"

definition built_from :: "string \<Rightarrow> string list \<Rightarrow> bool" where
  "built_from c fragments = (nospace c = nospace (concat fragments))"

definition loop_inv :: "nat \<Rightarrow> chunk_state \<Rightarrow> string list list \<Rightarrow> string list \<Rightarrow> bool" where
  "loop_inv mn st gs g =
     (case st of (chunks, cur, cnt) \<Rightarrow>
        list_all2 (\<lambda>c grp. nospace c = nospace (concat grp) \<and> mn \<le> total_words grp) chunks gs \<and>
        nospace cur = nospace (concat g) \<and> cnt = total_words g)"

text \<open>Test documents are built from \<open>filler n\<close>: the word \<open>w\<close> written \<open>n\<close> times,
  separated by single blanks.\<close>

fun filler :: "nat \<Rightarrow> string" where
  "filler 0 = []"
| "filler (Suc 0) = ''w''"
| "filler (Suc (Suc n)) = ''w '' @ filler (Suc n)"

text \<open>
  Documents for examples: a level-2 section with title \<open>t\<close> and a body of \<open>n\<close> words; a
  paragraph whose first line is an indented level-2 heading; and a document of three
  paragraphs, the second being that one.
\<close>

definition example_section :: "string \<Rightarrow> nat \<Rightarrow> string" where
  "example_section t n = ''## '' @ t @ NL # filler n @ [NL]"

definition heading_paragraph :: string where
  "heading_paragraph = '' ## Y '' @ filler 100"

definition indented_heading_doc :: string where
  "indented_heading_doc =
     filler 300 @ NL # NL # heading_paragraph @ NL # NL # filler 150"

section \<open>Chunk\<close>

text \<open>\<open>str.lower()\<close> on the code points 0..255: A..Z and the accented capitals
  192..222 (without the multiplication sign 215) move up by 32.\<close>

definition py_lower_char :: "char \<Rightarrow> char" where
  "py_lower_char c =
     (let n = (of_char c :: nat)
      in if (65 \<le> n \<and> n \<le> 90) \<or> (192 \<le> n \<and> n \<le> 222 \<and> n \<noteq> 215)
         then char_of (n + 32) else c)"

definition py_lower :: "string \<Rightarrow> string" where
  "py_lower s = map py_lower_char s"

text \<open>\<open>sep.join(xs)\<close>.\<close>

fun py_join :: "string \<Rightarrow> string list \<Rightarrow> string" where
  "py_join sep [] = []"
| "py_join sep [x] = x"
| "py_join sep (x # y # xs) = x @ sep @ py_join sep (y # xs)"

definition formatKeywords :: "string list \<Rightarrow> string" where
  "formatKeywords kws = py_strip (py_lower (py_join '', '' kws))"

record chunk =
  title :: string
  url :: string
  uuid :: string
  keywords' :: string
  content :: string

text \<open>\<open>Chunk.__init__\<close>, and \<open>createChunk\<close> with the value of \<open>str(uuid.uuid4())\<close> as an
  argument.\<close>

definition Chunk :: "string \<Rightarrow> string \<Rightarrow> string \<Rightarrow> string list \<Rightarrow> string \<Rightarrow> chunk" where
  "Chunk t u i kws c =
     \<lparr>title = t, url = u, uuid = i, keywords' = formatKeywords kws, content = c\<rparr>"

definition createChunk :: "string \<Rightarrow> string \<Rightarrow> string \<Rightarrow> string list \<Rightarrow> string \<Rightarrow> chunk" where
  "createChunk new_uuid text_snippet WEBSITE_url kws t =
     Chunk t WEBSITE_url new_uuid kws text_snippet"

text \<open>
  The keywords the data model of the specification describes: the lowercase terms, each
  kept at its first occurrence only, joined by a comma and a blank.
\<close>

fun first_occurrences :: "string list \<Rightarrow> string list" where
  "first_occurrences [] = []"
| "first_occurrences (x # xs) = x # filter (\<lambda>y. y \<noteq> x) (first_occurrences xs)"

definition spec_keywords :: "string list \<Rightarrow> string" where
  "spec_keywords kws = py_join '', '' (first_occurrences (map py_lower kws))"

section \<open>chunkSaveAndTrack\<close>

subsection \<open>int() and str()\<close>

datatype py_error = IndexError | ValueError

definition is_digit :: "char \<Rightarrow> bool" where
  "is_digit c = (48 \<le> (of_char c :: nat) \<and> (of_char c :: nat) \<le> 57)"

definition digit_val :: "char \<Rightarrow> nat" where
  "digit_val c = of_char c - 48"

text \<open>
  The digits of a decimal literal as \<open>int()\<close> reads them: digits, with single underscores
  allowed between two digits. \<open>acc\<close> is the value read so far and \<open>after_digit\<close> says that
  the previous character was a digit.
\<close>

fun parse_digits :: "string \<Rightarrow> nat \<Rightarrow> bool \<Rightarrow> nat option" where
  "parse_digits [] acc after_digit = (if after_digit then Some acc else None)"
| "parse_digits (c # cs) acc after_digit =
     (if is_digit c then parse_digits cs (acc * 10 + digit_val c) True
      else if c = CHR ''_'' \<and> after_digit then parse_digits cs acc False
      else None)"

text \<open>\<open>int(s)\<close>: surrounding whitespace is dropped, one sign is allowed, anything else
  raises ValueError.\<close>

definition py_int :: "string \<Rightarrow> py_error + int" where
  "py_int s =
     (case py_strip s of
        [] \<Rightarrow> Inl ValueError
      | c # cs \<Rightarrow>
          (if c = CHR ''-'' then
             (case parse_digits cs 0 False of None \<Rightarrow> Inl ValueError | Some n \<Rightarrow> Inr (- int n))
           else if c = CHR ''+'' then
             (case parse_digits cs 0 False of None \<Rightarrow> Inl ValueError | Some n \<Rightarrow> Inr (int n))
           else
             (case parse_digits (c # cs) 0 False of None \<Rightarrow> Inl ValueError | Some n \<Rightarrow> Inr (int n))))"

fun str_nat :: "nat \<Rightarrow> string" where
  "str_nat n = (if n < 10 then [char_of (48 + n)] else str_nat (n div 10) @ [char_of (48 + n mod 10)])"

declare str_nat.simps [simp del]

definition py_str :: "int \<Rightarrow> string" where
  "py_str i = (if i < 0 then CHR ''-'' # str_nat (nat (- i)) else str_nat (nat i))"

subsection \<open>The ledger\<close>

text \<open>
  The ledger file is modelled by what \<open>csv.reader\<close> yields for it: a list of rows, each a
  list of strings, the header first; \<open>csv.writer\<close> and \<open>csv.reader\<close> are taken to be
  inverse on such tables. An index out of range raises IndexError.
\<close>

type_synonym row = "string list"

definition py_index :: "'a list \<Rightarrow> nat \<Rightarrow> py_error + 'a" where
  "py_index xs i = (if i < length xs then Inr (xs ! i) else Inl IndexError)"

definition and_then :: "py_error + 'a \<Rightarrow> ('a \<Rightarrow> py_error + 'b) \<Rightarrow> py_error + 'b" where
  "and_then r f = (case r of Inl e \<Rightarrow> Inl e | Inr v \<Rightarrow> f v)"

text \<open>\<open>addNewRow\<close> puts the integer \<open>chunk_words\<close> in the row; the writer stores
  \<open>str(chunk_words)\<close>.\<close>

definition addNewRow :: "string \<Rightarrow> string \<Rightarrow> nat \<Rightarrow> string \<Rightarrow> row" where
  "addNewRow url' current_date chunk_words chunk_id =
     [url', current_date, py_str (int chunk_words), ''1'', chunk_id]"

definition addToExistingRow :: "row \<Rightarrow> nat \<Rightarrow> string \<Rightarrow> py_error + row" where
  "addToExistingRow row chunk_words chunk_id =
     and_then (py_index row 0) (\<lambda>url'.
     and_then (py_index row 1) (\<lambda>date.
     and_then (py_index row 2) (\<lambda>w.
     and_then (py_int w) (\<lambda>wi.
     and_then (py_index row 3) (\<lambda>n.
     and_then (py_int n) (\<lambda>ni.
     and_then (py_index row 4) (\<lambda>old_ids.
       Inr [url', date, py_str (wi + int chunk_words), py_str (ni + 1),
            old_ids @ '', '' @ chunk_id])))))))"

text \<open>The loop over the rows after the header, with its state \<open>(new_rows, url_found)\<close>.\<close>

fun scan_rows :: "string \<Rightarrow> nat \<Rightarrow> string \<Rightarrow> row list \<Rightarrow> row list \<times> bool \<Rightarrow>
    py_error + (row list \<times> bool)" where
  "scan_rows url' chunk_words chunk_id [] st = Inr st"
| "scan_rows url' chunk_words chunk_id (row # rows) st =
     (case st of (new_rows, url_found) \<Rightarrow>
        and_then (py_index row 0) (\<lambda>key.
          if key = url'
          then and_then (addToExistingRow row chunk_words chunk_id) (\<lambda>r.
                 scan_rows url' chunk_words chunk_id rows (new_rows @ [r], True))
          else scan_rows url' chunk_words chunk_id rows (new_rows @ [row], url_found)))"

text \<open>\<open>recordChunk\<close> maps the table read from the file to the table written back;
  \<open>current_date\<close> is today's date as formatted by \<open>strftime\<close>.\<close>

definition recordChunk :: "string \<Rightarrow> string \<Rightarrow> chunk \<Rightarrow> row list \<Rightarrow> py_error + row list" where
  "recordChunk current_date url' c details =
     (let chunk_words = word_count (content c);
          chunk_id = ''chunk_'' @ uuid c;
          new_rows = (case details of [] \<Rightarrow> [] | headers # _ \<Rightarrow> [headers])
      in and_then (scan_rows url' chunk_words chunk_id (tl details) (new_rows, False))
           (\<lambda>(new_rows, url_found).
              Inr (if \<not> url_found
                   then new_rows @ [addNewRow url' current_date chunk_words chunk_id]
                   else new_rows)))"

text \<open>A run of \<open>recordChunk\<close> calls, one per \<open>(url, chunk)\<close> pair.\<close>

fun record_all :: "string \<Rightarrow> (string \<times> chunk) list \<Rightarrow> row list \<Rightarrow> py_error + row list" where
  "record_all current_date [] details = Inr details"
| "record_all current_date ((url', c) # calls) details =
     and_then (recordChunk current_date url' c details) (record_all current_date calls)"

text \<open>
  The value \<open>int()\<close> returns for a column (0 where it raises), and the rows of a
  well-formed ledger: five columns, the word total and the chunk count numbers.
\<close>

definition int_value :: "string \<Rightarrow> int" where
  "int_value s = (case py_int s of Inr i \<Rightarrow> i | Inl _ \<Rightarrow> 0)"

definition ledger_row :: "row \<Rightarrow> bool" where
  "ledger_row r = (length r = 5 \<and> py_int (r ! 2) = Inr (int_value (r ! 2)) \<and>
                   py_int (r ! 3) = Inr (int_value (r ! 3)))"

text \<open>
  The record operation in the words of the specification: a row whose key is the url is
  replaced by the url, the same date, the word total plus the chunk's word count, the
  chunk count plus one and the ids with a comma, a blank and the new id appended; when
  no row has that key a fresh row is appended; the header stays first and the other
  rows stay as they are.
\<close>

definition spec_updated_row :: "nat \<Rightarrow> string \<Rightarrow> row \<Rightarrow> row" where
  "spec_updated_row chunk_words chunk_id r =
     [r ! 0, r ! 1, py_str (int_value (r ! 2) + int chunk_words),
      py_str (int_value (r ! 3) + 1), r ! 4 @ '', '' @ chunk_id]"

definition spec_record :: "string \<Rightarrow> string \<Rightarrow> chunk \<Rightarrow> row list \<Rightarrow> row list" where
  "spec_record current_date u c table =
     (let w = word_count (content c); cid = ''chunk_'' @ uuid c;
          header = hd table; rows = tl table
      in if (\<exists>r \<in> set rows. r ! 0 = u)
         then header # map (\<lambda>r. if r ! 0 = u then spec_updated_row w cid r else r) rows
         else header # rows @ [[u, current_date, py_str (int w), ''1'', cid]])"

text \<open>
  The number of comma-separated entries of the ids column, and the rows whose chunk count
  is that number.
\<close>

definition id_count :: "string \<Rightarrow> nat" where
  "id_count ids = Suc (length (filter (\<lambda>c. c = CHR '','') ids))"

definition row_consistent :: "row \<Rightarrow> bool" where
  "row_consistent r = (ledger_row r \<and> int_value (r ! 3) = int (id_count (r ! 4)))"

text \<open>A ledger header and a chunk for examples.\<close>

definition example_header :: row where
  "example_header = [''URL'', ''Date'', ''Number of Words'', ''Number of Chunks'', ''Chunk IDs'']"

definition example_chunk :: chunk where
  "example_chunk = \<lparr>title = ''t'', url = ''u'', uuid = ''b'', keywords' = ''k'', content = ''x y''\<rparr>"

section \<open>processLearningPath\<close>

text \<open>
  What the pipeline owns: the list \<open>cross_platform_lps_dont_duplicate\<close>, the YAML files
  written so far, the ledger table, and the number of uuids drawn.
\<close>

record pipeline =
  cross_platform_lps_dont_duplicate :: "string list"
  yaml_files :: "(string \<times> chunk) list"
  chunk_details :: "row list"
  uuids_drawn :: nat

text \<open>
  What the pipeline reads from outside: for a page and its type the calls of
  \<open>chunkizeLearningPath\<close> its navigation leads to (relative url, title, keywords); for a
  markdown url the text \<open>obtainMarkdownContentFromGitHubMDFile\<close> returns, or \<open>None\<close> when
  \<open>URLIsValidCheck\<close> fails; today's date; and the stream of values of \<open>uuid.uuid4()\<close>.
\<close>

record site =
  navigation :: "string \<Rightarrow> string \<Rightarrow> (string \<times> string \<times> string list) list"
  markdown_of :: "string \<Rightarrow> string option"
  today :: string
  uuid4 :: "nat \<Rightarrow> string"

definition github_raw_link :: string where
  "github_raw_link = ''https://raw.githubusercontent.com/ArmDeveloperEcosystem/arm-learning-paths/refs/heads/production/content''"

definition site_link :: string where
  "site_link = ''https://learn.arm.com''"

definition yaml_dir :: string where
  "yaml_dir = ''yaml_data''"

text \<open>\<open>sub in s\<close> for strings.\<close>

fun py_in :: "string \<Rightarrow> string \<Rightarrow> bool" where
  "py_in sub [] = (sub = [])"
| "py_in sub (c # cs) = (take (length sub) (c # cs) = sub \<or> py_in sub cs)"

definition chunkSaveAndTrack :: "string \<Rightarrow> string \<Rightarrow> chunk \<Rightarrow> pipeline \<Rightarrow> py_error + pipeline" where
  "chunkSaveAndTrack current_date url' c st =
     (let file_name = yaml_dir @ ''/chunk_'' @ uuid c @ ''.yaml''
      in and_then (recordChunk current_date url' c (chunk_details st))
           (\<lambda>details. Inr (st\<lparr>yaml_files := yaml_files st @ [(file_name, c)],
                                chunk_details := details\<rparr>)))"

text \<open>Step 5 of \<open>chunkizeLearningPath\<close>: one chunk per snippet, each saved and tracked.\<close>

fun save_snippets :: "site \<Rightarrow> string \<Rightarrow> string list \<Rightarrow> string \<Rightarrow> string list \<Rightarrow> pipeline \<Rightarrow>
    py_error + pipeline" where
  "save_snippets env WEBSITE_url kws t [] st = Inr st"
| "save_snippets env WEBSITE_url kws t (text_snippet # rest) st =
     (let c = createChunk (uuid4 env (uuids_drawn st)) text_snippet WEBSITE_url kws t
      in and_then (chunkSaveAndTrack (today env) WEBSITE_url c
                     (st\<lparr>uuids_drawn := Suc (uuids_drawn st)\<rparr>))
           (save_snippets env WEBSITE_url kws t rest))"

definition chunkizeLearningPath :: "site \<Rightarrow> string \<Rightarrow> string \<Rightarrow> string list \<Rightarrow> pipeline \<Rightarrow>
    py_error + pipeline" where
  "chunkizeLearningPath env relative_url t kws st =
     (let relative_url = (if relative_url \<noteq> [] \<and> last relative_url = CHR ''/''
                          then butlast relative_url else relative_url);
          MARKDOWN_url = github_raw_link @ relative_url @ ''.md'';
          WEBSITE_url = site_link @ relative_url
      in case markdown_of env MARKDOWN_url of
           None \<Rightarrow> Inr st
         | Some markdown \<Rightarrow> save_snippets env WEBSITE_url kws t (text_snippets markdown) st)"

fun chunkize_all :: "site \<Rightarrow> (string \<times> string \<times> string list) list \<Rightarrow> pipeline \<Rightarrow>
    py_error + pipeline" where
  "chunkize_all env [] st = Inr st"
| "chunkize_all env ((href, t, kws) # links) st =
     and_then (chunkizeLearningPath env href t kws st) (chunkize_all env links)"

text \<open>
  The gate at the top of the \<open>Learning Path\<close> branch: it returns whether the page is
  processed, and the list as it is afterwards.
\<close>

definition dedup_gate :: "string \<Rightarrow> string list \<Rightarrow> bool \<times> string list" where
  "dedup_gate url' seen =
     (if py_in ''cross-platform'' url' then
        (if url' \<in> set seen then (False, seen) else (True, seen @ [url']))
      else (True, seen))"

definition processLearningPath :: "site \<Rightarrow> string \<Rightarrow> string \<Rightarrow> pipeline \<Rightarrow> py_error + pipeline" where
  "processLearningPath env url' lp_type st =
     (if lp_type = ''Learning Path'' then
        (case dedup_gate url' (cross_platform_lps_dont_duplicate st) of
           (False, _) \<Rightarrow> Inr st
         | (True, seen) \<Rightarrow>
             chunkize_all env (navigation env lp_type url')
               (st\<lparr>cross_platform_lps_dont_duplicate := seen\<rparr>))
      else if lp_type = ''Install Guide'' then
        chunkize_all env (navigation env lp_type url') st
      else Inr st)"

text \<open>A run of \<open>processLearningPath\<close> calls, one per \<open>(url, type)\<close> pair.\<close>

fun process_all :: "site \<Rightarrow> (string \<times> string) list \<Rightarrow> pipeline \<Rightarrow> py_error + pipeline" where
  "process_all env [] st = Inr st"
| "process_all env ((url', lp_type) # calls) st =
     and_then (processLearningPath env url' lp_type st) (process_all env calls)"

text \<open>An outside world with one cross-platform learning path of one page, and the
  pipeline before and after that path is processed.\<close>

definition example_site :: site where
  "example_site =
     \<lparr>navigation = (\<lambda>lp_type page.
        if page = ''https://learn.arm.com/learning-paths/cross-platform/a/''
        then [(''/learning-paths/cross-platform/a/intro/'', ''T'', [''K''])] else []),
      markdown_of = (\<lambda>u. Some ''hello world''),
      today = ''2025-01-02'',
      uuid4 = (\<lambda>n. ''b'')\<rparr>"

definition example_start :: pipeline where
  "example_start =
     \<lparr>cross_platform_lps_dont_duplicate = [], yaml_files = [],
      chunk_details = [example_header], uuids_drawn = 0\<rparr>"

definition example_after :: pipeline where
  "example_after =
     \<lparr>cross_platform_lps_dont_duplicate = [''https://learn.arm.com/learning-paths/cross-platform/a/''],
      yaml_files = [(''yaml_data/chunk_b.yaml'',
         \<lparr>title = ''T'', url = ''https://learn.arm.com/learning-paths/cross-platform/a/intro'',
          uuid = ''b'', keywords' = ''k'', content = ''hello world''\<rparr>)],
      chunk_details = [example_header,
         [''https://learn.arm.com/learning-paths/cross-platform/a/intro'', ''2025-01-02'', ''2'',
          ''1'', ''chunk_b'']],
      uuids_drawn = 1\<rparr>"

abbreviation dedup :: "pipeline \<Rightarrow> string list" where
  "dedup \<equiv> cross_platform_lps_dont_duplicate"

section \<open>Facts about the string primitives and the splitter\<close>


lemma is_space_NL [simp]: "is_space NL" by (simp add: is_space_def)
lemma is_space_blank [simp]: "is_space CHR '' ''" by (simp add: is_space_def)
lemma not_space_w [simp]: "\<not> is_space CHR ''w''" by (simp add: is_space_def)
lemma not_space_hash [simp]: "\<not> is_space CHR ''#''" by (simp add: is_space_def)

lemma split_fields_nonempty [simp]: "split_fields s \<noteq> []"
  by (induction s) (auto split: list.splits)

lemma split_fields_space:
  "is_space c \<Longrightarrow> split_fields (a @ c # b) = split_fields a @ split_fields b"
proof (induction a)
  case Nil
  then show ?case by simp
next
  case (Cons x a)
  then show ?case by (cases "split_fields a") auto
qed

lemma py_split_space:
  "is_space c \<Longrightarrow> py_split (a @ c # b) = py_split a @ py_split b"
  by (simp add: py_split_def split_fields_space)

lemma py_split_Nil [simp]: "py_split [] = []"
  by (simp add: py_split_def)

lemma py_split_Cons_space [simp]: "is_space c \<Longrightarrow> py_split (c # s) = py_split s"
  by (simp add: py_split_def)

lemma py_split_snoc_space [simp]: "is_space c \<Longrightarrow> py_split (s @ [c]) = py_split s"
  using py_split_space [of c s "[]"] by simp

lemma py_split_append:
  assumes "a = [] \<or> is_space (last a) \<or> b = [] \<or> is_space (hd b)"
  shows "py_split (a @ b) = py_split a @ py_split b"
proof -
  consider "a = []" | "b = []" | "a \<noteq> []" "is_space (last a)" | "b \<noteq> []" "is_space (hd b)"
    using assms by blast
  then show ?thesis
  proof cases
    case 1 then show ?thesis by simp
  next
    case 2 then show ?thesis by simp
  next
    case 3
    then obtain a' c where a: "a = a' @ [c]" "is_space c"
      by (metis append_butlast_last_id)
    then show ?thesis using py_split_space [of c a' b] by simp
  next
    case 4
    then obtain c b' where b: "b = c # b'" "is_space c"
      by (cases b) auto
    then show ?thesis using py_split_space [of c a b'] by simp
  qed
qed

lemma py_split_all_space: "\<forall>c \<in> set s. is_space c \<Longrightarrow> py_split s = []"
  by (induction s) auto

lemma py_split_Nil_iff: "py_split s = [] \<longleftrightarrow> (\<forall>c \<in> set s. is_space c)"
proof
  show "py_split s = [] \<Longrightarrow> \<forall>c \<in> set s. is_space c"
  proof (induction s)
    case Nil then show ?case by simp
  next
    case (Cons x s)
    show ?case
    proof (cases "is_space x")
      case True
      with Cons show ?thesis by simp
    next
      case False
      then have "py_split (x # s) \<noteq> []"
        by (cases "split_fields s") (auto simp: py_split_def)
      with Cons.prems show ?thesis by simp
    qed
  qed
qed (rule py_split_all_space)

lemma py_split_dropWhile [simp]: "py_split (dropWhile is_space s) = py_split s"
  by (induction s) auto

lemma py_split_drop_trailing [simp]:
  "py_split (rev (dropWhile is_space (rev s))) = py_split s"
proof -
  have s: "s = rev (dropWhile is_space (rev s)) @ rev (takeWhile is_space (rev s))"
    by (metis rev_append rev_rev_ident takeWhile_dropWhile_id)
  have sp: "\<forall>c \<in> set (rev (takeWhile is_space (rev s))). is_space c"
    by (auto dest: set_takeWhileD)
  show ?thesis
  proof (cases "rev (takeWhile is_space (rev s))")
    case Nil
    with s show ?thesis by simp
  next
    case (Cons c t)
    with sp have c: "is_space c" and t: "\<forall>c \<in> set t. is_space c" by auto
    have "py_split s = py_split (rev (dropWhile is_space (rev s)) @ c # t)"
      using s Cons by simp
    also have "\<dots> = py_split (rev (dropWhile is_space (rev s))) @ py_split t"
      using c by (rule py_split_space)
    finally show ?thesis using t by (simp add: py_split_all_space)
  qed
qed

lemma py_split_strip [simp]: "py_split (py_strip s) = py_split s"
  by (simp add: py_strip_def)

lemma word_count_strip [simp]: "word_count (py_strip s) = word_count s"
  by (simp add: word_count_def)

lemma py_strip_Nil_iff: "py_strip s = [] \<longleftrightarrow> word_count s = 0"
proof -
  have "py_strip s = [] \<longleftrightarrow> dropWhile is_space s = []"
  proof (cases "dropWhile is_space s")
    case Nil
    then show ?thesis by (simp add: py_strip_def del: dropWhile_eq_Nil_conv)
  next
    case (Cons x xs)
    then have "\<not> is_space x" using hd_dropWhile [of is_space s] by simp
    with Cons show ?thesis by (auto simp: py_strip_def)
  qed
  then show ?thesis
    by (simp add: word_count_def py_split_Nil_iff)
qed

lemma py_strip_id:
  "s \<noteq> [] \<Longrightarrow> \<not> is_space (hd s) \<Longrightarrow> \<not> is_space (last s) \<Longrightarrow> py_strip s = s"
proof -
  assume a: "s \<noteq> []" "\<not> is_space (hd s)" "\<not> is_space (last s)"
  then have 1: "dropWhile is_space s = s" by (cases s) auto
  from a have "dropWhile is_space (rev s) = rev s"
    by (cases "rev s") (auto simp: last_rev hd_rev)
  with 1 show ?thesis by (simp add: py_strip_def)
qed

lemma word_count_append:
  "a = [] \<or> is_space (last a) \<or> b = [] \<or> is_space (hd b) \<Longrightarrow>
   word_count (a @ b) = word_count a + word_count b"
  by (simp add: word_count_def py_split_append)

lemma py_split_filler: "py_split (filler n) = replicate n ''w''"
proof (induction n rule: filler.induct)
  case 1 then show ?case by simp
next
  case 2 then show ?case by (simp add: py_split_def is_space_def)
next
  case (3 n)
  have "py_split (''w'' @ CHR '' '' # filler (Suc n)) = py_split ''w'' @ py_split (filler (Suc n))"
    by (rule py_split_space) simp
  with 3 show ?case by (simp add: py_split_def is_space_def)
qed

lemma word_count_filler [simp]: "word_count (filler n) = n"
  by (simp add: word_count_def py_split_filler)

lemma set_filler: "set (filler n) \<subseteq> {CHR ''w'', CHR '' ''}"
  by (induction n rule: filler.induct) auto

lemma hd_filler [simp]: "0 < n \<Longrightarrow> hd (filler n) = CHR ''w''"
  by (induction n rule: filler.induct) auto

lemma filler_Nil_iff [simp]: "filler n = [] \<longleftrightarrow> n = 0"
  by (induction n rule: filler.induct) auto

lemma last_filler [simp]: "0 < n \<Longrightarrow> last (filler n) = CHR ''w''"
  by (induction n rule: filler.induct) auto



lemma split_from_nonempty [simp]: "split_from l nl s \<noteq> []"
  by (induction l nl s rule: split_from.induct) (auto split: list.splits)

lemma no_heading_split: "\<not> has_heading l nl s \<Longrightarrow> split_from l nl s = [s]"
  by (induction s arbitrary: nl) auto

lemma heading_at_hd: "heading_at (h # l) (c # cs) \<Longrightarrow> c = h"
  by (simp add: heading_at_def)

lemma no_hash_no_heading: "h \<notin> set s \<Longrightarrow> \<not> has_heading (h # l) nl s"
  by (induction s arbitrary: nl) (auto dest: heading_at_hd)

lemma heading_text_rest: "heading_text l r @ heading_rest l r = r"
  by (simp add: heading_text_def heading_rest_def)

lemma heading_rest_starts: "heading_rest l r = [] \<or> is_space (hd (heading_rest l r))"
proof (cases "heading_rest l r")
  case Nil then show ?thesis by simp
next
  case (Cons x xs)
  then have "\<not> (x \<noteq> NL)"
    unfolding heading_rest_def using hd_dropWhile [of "\<lambda>c. c \<noteq> NL" "drop (length l + 1) r"] by simp
  with Cons show ?thesis by simp
qed

lemma split_from_words_aux:
  "(nl \<longrightarrow> pre = [] \<or> is_space (last pre)) \<Longrightarrow>
   py_split (pre @ s) =
     py_split (pre @ hd (split_from l nl s)) @ concat (map py_split (tl (split_from l nl s)))"
proof (induction l nl s arbitrary: pre rule: split_from.induct)
  case (1 l nl)
  then show ?case by simp
next
  case (2 l nl c cs)
  show ?case
  proof (cases "nl \<and> heading_at l (c # cs)")
    case True
    let ?ht = "heading_text l (c # cs)" and ?hr = "heading_rest l (c # cs)"
    have rec: "py_split ?hr = concat (map py_split (split_from l False ?hr))"
      using "2.IH"(1) [OF True, of "[]"]
      by (cases "split_from l False ?hr") auto
    have "py_split (pre @ c # cs) = py_split pre @ py_split (c # cs)"
      using True "2.prems" by (intro py_split_append) auto
    also have "py_split (c # cs) = py_split (?ht @ ?hr)"
      by (simp only: heading_text_rest)
    also have "\<dots> = py_split ?ht @ py_split ?hr"
      using heading_rest_starts [of l "c # cs"] by (intro py_split_append) auto
    finally show ?thesis using True rec by simp
  next
    case False
    have "py_split ((pre @ [c]) @ cs) =
      py_split ((pre @ [c]) @ hd (split_from l (c = NL) cs)) @
        concat (map py_split (tl (split_from l (c = NL) cs)))"
      using "2.IH"(2) [OF False, of "pre @ [c]"] by simp
    then show ?thesis using False
      by (cases "split_from l (c = NL) cs") auto
  qed
qed

lemma split_by_heading_words:
  "concat (map py_split (split_by_heading s l)) = py_split s"
  using split_from_words_aux [of False "[]" s l]
  by (cases "split_from l False s") (auto simp: split_by_heading_def)

lemma length_concat_sum: "length (concat xss) = sum_list (map length xss)"
  by (induction xss) auto

lemma sum_word_count: "sum_list (map word_count xs) = length (concat (map py_split xs))"
  by (induction xs) (simp_all add: word_count_def)

lemma split_by_heading_word_count:
  "sum_list (map word_count (split_by_heading s l)) = word_count s"
  by (simp add: sum_word_count split_by_heading_words word_count_def)

lemma chunk_loop_no_flush:
  "cnt + sum_list (map word_count pieces) < mn \<Longrightarrow>
   chunk_loop mn mx l pieces (chunks, cur, cnt) =
     (chunks, cur @ concat (map (\<lambda>p. p @ [NL]) pieces), cnt + sum_list (map word_count pieces))"
  by (induction pieces arbitrary: cur cnt) (auto simp: heading_flush_def add_piece_def)

lemma py_split_joined:
  "py_split (cur @ concat (map (\<lambda>p. p @ [NL]) pieces)) =
   py_split (cur @ (if pieces = [] then [] else hd pieces)) @ concat (map py_split (tl pieces))"
proof (induction pieces arbitrary: cur)
  case Nil then show ?case by simp
next
  case (Cons p ps)
  have "py_split (cur @ concat (map (\<lambda>p. p @ [NL]) (p # ps))) =
        py_split ((cur @ p) @ NL # concat (map (\<lambda>p. p @ [NL]) ps))" by simp
  also have "\<dots> = py_split (cur @ p) @ py_split (concat (map (\<lambda>p. p @ [NL]) ps))"
    by (rule py_split_space) simp
  also have "py_split (concat (map (\<lambda>p. p @ [NL]) ps)) = concat (map py_split ps)"
    using Cons [of "[]"] by (cases ps) auto
  finally show ?case by simp
qed

lemma py_split_joined_Nil:
  "py_split (concat (map (\<lambda>p. p @ [NL]) pieces)) = concat (map py_split pieces)"
  using py_split_joined [of "[]" pieces] by (cases pieces) auto

lemma py_strip_snoc_space: "is_space c \<Longrightarrow> py_strip (s @ [c]) = py_strip s"
proof (cases "\<forall>x \<in> set s. is_space x")
  case True
  assume "is_space c"
  with True show ?thesis by (auto simp: py_strip_def dest: set_dropWhileD)
next
  case False
  assume c: "is_space c"
  from False obtain x where "x \<in> set s" "\<not> is_space x" by blast
  then have "dropWhile is_space (s @ [c]) = dropWhile is_space s @ [c]"
    by (rule dropWhile_append1)
  with c show ?thesis by (simp add: py_strip_def)
qed

lemma split_paragraphs_nonempty [simp]: "split_paragraphs s \<noteq> []"
  by (induction s rule: split_paragraphs.induct) (auto split: list.splits)

lemma split_paragraphs_no_NL: "NL \<notin> set a \<Longrightarrow> split_paragraphs a = [a]"
  by (induction a rule: split_paragraphs.induct) auto

lemma split_paragraphs_append:
  "NL \<notin> set a \<Longrightarrow> split_paragraphs (a @ NL # NL # b) = a # split_paragraphs b"
  by (induction a rule: split_paragraphs.induct) auto

lemma filler_no_NL [simp]: "NL \<notin> set (filler n)"
  using set_filler [of n] by auto

lemma filler_no_hash [simp]: "CHR ''#'' \<notin> set (filler n)"
  using set_filler [of n] by auto

lemma set_py_strip: "set (py_strip s) \<subseteq> set s"
  by (auto simp: py_strip_def dest!: set_dropWhileD)

lemma starts_heading_hd:
  "starts_heading (h # l) piece \<Longrightarrow> h \<in> set piece"
proof -
  assume "starts_heading (h # l) piece"
  then have "take (Suc (Suc (length l))) (py_strip piece) = h # l @ '' ''"
    by (simp add: starts_heading_def)
  then have "h \<in> set (py_strip piece)"
    by (cases "py_strip piece") auto
  then show ?thesis using set_py_strip by blast
qed

lemma no_hash_not_heading: "h \<notin> set piece \<Longrightarrow> \<not> starts_heading (h # l) piece"
  using starts_heading_hd by blast

lemma word_count_Nil [simp]: "word_count [] = 0"
  by (simp add: word_count_def)

lemma word_count_space [simp]:
  "is_space c \<Longrightarrow> word_count (a @ c # b) = word_count a + word_count b"
  by (simp add: word_count_def py_split_space)

lemma word_count_Cons_space [simp]: "is_space c \<Longrightarrow> word_count (c # b) = word_count b"
  by (simp add: word_count_def)

lemma py_strip_Nil [simp]: "py_strip [] = []"
  by (simp add: py_strip_def)

lemma py_strip_ends:
  assumes "py_strip s \<noteq> []"
  shows "\<not> is_space (hd (py_strip s))" and "\<not> is_space (last (py_strip s))"
proof -
  let ?t = "dropWhile is_space s" and ?u = "dropWhile is_space (rev (dropWhile is_space s))"
  from assms have u: "?u \<noteq> []" by (simp add: py_strip_def)
  have t: "?t \<noteq> []"
  proof
    assume "?t = []"
    then have "?u = []" by (simp only: rev.simps dropWhile.simps)
    with u show False by contradiction
  qed
  have "rev ?t = takeWhile is_space (rev ?t) @ ?u" by simp
  then have "last (rev ?t) = last ?u" using u by (metis last_appendR)
  then have "last ?u = hd ?t" using t by (simp add: last_rev)
  moreover have "\<not> is_space (hd ?t)" using t hd_dropWhile by blast
  ultimately show "\<not> is_space (hd (py_strip s))"
    using u by (simp add: py_strip_def hd_rev)
  have "\<not> is_space (hd ?u)" using u hd_dropWhile by blast
  then show "\<not> is_space (last (py_strip s))"
    using u by (simp add: py_strip_def last_rev)
qed

lemma py_strip_idem [simp]: "py_strip (py_strip s) = py_strip s"
proof (cases "py_strip s = []")
  case True then show ?thesis by simp
next
  case False then show ?thesis by (intro py_strip_id py_strip_ends)
qed

lemma create_chunks_single:
  "0 < mn \<Longrightarrow>
   create_chunks mn mx mf [p] l = (if word_count p = 0 then [] else [py_strip p])"
  by (simp add: create_chunks_def heading_flush_def add_piece_def last_chunk_def
      py_strip_snoc_space py_strip_Nil_iff)

lemma snippets_no_heading:
  assumes "\<not> has_heading ''##'' False d"
    and "\<not> has_heading ''###'' False (py_strip d)"
    and "\<not> has_heading ''####'' False (py_strip d)"
    and "500 < word_count d"
  shows "text_snippets d = create_chunks 300 500 200 (split_paragraphs (py_strip d)) ''##''"
proof -
  have 2: "create_chunks 300 500 200 (split_by_heading d ''##'') ''##'' = [py_strip d]"
    using assms by (simp add: split_by_heading_def no_heading_split create_chunks_single)
  have 3: "create_chunks 300 500 200 (split_by_heading (py_strip d) ''###'') ''###'' = [py_strip d]"
    using assms by (simp add: split_by_heading_def no_heading_split create_chunks_single)
  have 4: "create_chunks 300 500 200 (split_by_heading (py_strip d) ''####'') ''####'' = [py_strip d]"
    using assms by (simp add: split_by_heading_def no_heading_split create_chunks_single)
  show ?thesis
    using assms(4)
    by (simp add: text_snippets_def obtainTextSnippets__Markdown_def split_h3_level_def
        split_h4_level_def split_paragraph_level_def 2 3 4)
qed

lemma filler_strip: "0 < n \<Longrightarrow> py_strip (filler n) = filler n"
  by (rule py_strip_id) simp_all

subsection \<open>Splitting a document with headings\<close>

lemma heading_at_iff:
  "heading_at l r \<longleftrightarrow> (\<exists>c rest. r = l @ CHR '' '' # c # rest \<and> c \<noteq> NL)"
proof
  assume h: "heading_at l r"
  then obtain c rest where d: "drop (length l + 1) r = c # rest" and c: "c \<noteq> NL"
    by (auto simp: heading_at_def split: list.splits)
  from h have t: "take (length l + 1) r = l @ '' ''" by (simp add: heading_at_def)
  have "r = take (length l + 1) r @ drop (length l + 1) r" by simp
  with t d have "r = l @ CHR '' '' # c # rest" by simp
  with c show "\<exists>c rest. r = l @ CHR '' '' # c # rest \<and> c \<noteq> NL" by blast
next
  assume "\<exists>c rest. r = l @ CHR '' '' # c # rest \<and> c \<noteq> NL"
  then show "heading_at l r" by (auto simp: heading_at_def)
qed

lemma heading_at_local:
  assumes "NL \<in> set x" and "NL \<notin> set l"
  shows "heading_at l (x @ r) = heading_at l x"
proof
  assume "heading_at l x"
  then show "heading_at l (x @ r)" by (auto simp: heading_at_iff)
next
  assume "heading_at l (x @ r)"
  then obtain c rest where e: "x @ r = (l @ [CHR '' '', c]) @ rest" and c: "c \<noteq> NL"
    by (auto simp: heading_at_iff)
  from e obtain us where
    "x = (l @ [CHR '' '', c]) @ us \<or> x @ us = l @ [CHR '' '', c]"
    unfolding append_eq_append_conv2 by blast
  then show "heading_at l x"
  proof
    assume "x = (l @ [CHR '' '', c]) @ us"
    with c show ?thesis by (auto simp: heading_at_iff)
  next
    assume "x @ us = l @ [CHR '' '', c]"
    then have "set x \<subseteq> set (l @ [CHR '' '', c])" by (metis set_append Un_upper1)
    with assms c show ?thesis by auto
  qed
qed

lemma heading_at_NL: "NL \<notin> set l \<Longrightarrow> \<not> heading_at l (NL # r)"
  by (cases l) (auto simp: heading_at_iff Cons_eq_append_conv)

lemma has_heading_append:
  assumes "a \<noteq> []" and "last a = NL" and "NL \<notin> set l"
  shows "has_heading l nl (a @ r) = (has_heading l nl a \<or> has_heading l True r)"
  using assms(1,2)
proof (induction a arbitrary: nl)
  case Nil
  then show ?case by simp
next
  case (Cons c a)
  show ?case
  proof (cases "a = []")
    case True
    with Cons.prems have "c = NL" by simp
    with True assms(3) show ?thesis by (simp add: heading_at_NL)
  next
    case False
    with Cons.prems have la: "last a = NL" by simp
    then have "NL \<in> set (c # a)" using False by (metis last_in_set list.set_intros(2))
    then have "heading_at l ((c # a) @ r) = heading_at l (c # a)"
      using assms(3) by (rule heading_at_local)
    with Cons.IH [OF False la] show ?thesis by auto
  qed
qed

lemma split_from_append:
  assumes "a \<noteq> []" and "last a = NL" and "NL \<notin> set l" and "\<not> has_heading l nl a"
  shows "split_from l nl (a @ r) = (a @ hd (split_from l True r)) # tl (split_from l True r)"
  using assms(1,2,4)
proof (induction a arbitrary: nl)
  case Nil
  then show ?case by simp
next
  case (Cons c a)
  show ?case
  proof (cases "a = []")
    case True
    with Cons.prems have "c = NL" by simp
    with True assms(3) show ?thesis
      by (cases "split_from l True r") (simp_all add: heading_at_NL)
  next
    case False
    with Cons.prems have la: "last a = NL" by simp
    then have "NL \<in> set (c # a)" using False by (metis last_in_set list.set_intros(2))
    then have loc: "heading_at l ((c # a) @ r) = heading_at l (c # a)"
      using assms(3) by (rule heading_at_local)
    from Cons.prems have nh: "\<not> (nl \<and> heading_at l (c # a))" and
      nh': "\<not> has_heading l (c = NL) a" by auto
    from Cons.IH [OF False la nh'] nh loc show ?thesis
      by simp
  qed
qed

lemma has_heading_line:
  "NL \<notin> set x \<Longrightarrow> has_heading l False (x @ NL # b) = has_heading l True b"
  by (induction x) auto

lemma split_from_heading_line:
  assumes "NL \<notin> set l" and "t \<noteq> []" and "NL \<notin> set t"
  shows "split_from l True (l @ CHR '' '' # t @ NL # r) =
           [] # (l @ CHR '' '' # t) # (NL # hd (split_from l True r)) # tl (split_from l True r)"
proof -
  let ?s = "l @ CHR '' '' # t @ NL # r"
  obtain c cs where s: "?s = c # cs" by (cases ?s) auto
  obtain c' t' where t: "t = c' # t'" using assms(2) by (cases t) auto
  with assms(3) have c': "c' \<noteq> NL" by auto
  have at: "heading_at l ?s" using c' by (auto simp: heading_at_iff t)
  have tw: "takeWhile (\<lambda>c. c \<noteq> NL) (t @ NL # r) = t"
    using assms(3) by (induction t) auto
  have dw: "dropWhile (\<lambda>c. c \<noteq> NL) (t @ NL # r) = NL # r"
    using assms(3) by (induction t) auto
  have ht: "heading_text l ?s = l @ CHR '' '' # t"
    by (simp add: heading_text_def tw)
  have hr: "heading_rest l ?s = NL # r"
    by (simp add: heading_rest_def dw)
  have "split_from l True ?s = [] # heading_text l ?s # split_from l False (heading_rest l ?s)"
    using at by (simp add: s)
  also have "split_from l False (heading_rest l ?s) =
      (NL # hd (split_from l True r)) # tl (split_from l True r)"
    by (cases "split_from l True r") (simp_all add: hr)
  finally show ?thesis by (simp add: ht)
qed

subsection \<open>Steps of the grouping loop\<close>

lemma chunk_loop_append_step:
  "cnt < mn \<Longrightarrow>
   chunk_loop mn mx l (p # ps) (chunks, cur, cnt) =
     chunk_loop mn mx l ps (chunks, cur @ p @ [NL], cnt + word_count p)"
  by (simp add: heading_flush_def add_piece_def)

lemma chunk_loop_plain_step:
  "\<not> starts_heading l p \<Longrightarrow> cnt + word_count p \<le> mx \<Longrightarrow>
   chunk_loop mn mx l (p # ps) (chunks, cur, cnt) =
     chunk_loop mn mx l ps (chunks, cur @ p @ [NL], cnt + word_count p)"
  by (simp add: heading_flush_def add_piece_def)

lemma no_words_not_heading: "word_count p = 0 \<Longrightarrow> \<not> starts_heading l p"
  using py_strip_Nil_iff [of p] by (simp add: starts_heading_def)

lemma chunk_loop_heading_step:
  "starts_heading l p \<Longrightarrow> mn \<le> cnt \<Longrightarrow> 0 < mn \<Longrightarrow>
   chunk_loop mn mx l (p # ps) (chunks, cur, cnt) =
     chunk_loop mn mx l ps (chunks @ [py_strip cur], p @ [NL], word_count p)"
  by (simp add: heading_flush_def add_piece_def)

lemma py_strip_append_nonspace:
  assumes "\<not> is_space c"
  shows "py_strip (c # s) = c # rev (dropWhile is_space (rev s))"
proof -
  have "dropWhile is_space (rev s @ [c]) = dropWhile is_space (rev s) @ [c]"
    using assms by (induction "rev s" arbitrary: s) (auto simp: dropWhile_append)
  with assms show ?thesis by (simp add: py_strip_def)
qed

lemma starts_heading_title:
  assumes "0 < word_count t"
  shows "starts_heading ''##'' (''## '' @ t)"
proof -
  from assms obtain x where x: "x \<in> set t" "\<not> is_space x"
    by (auto simp: word_count_def py_split_Nil_iff)
  then have x': "x \<in> set (rev t)" by simp
  have 1: "dropWhile is_space (rev t @ '' ##'') = dropWhile is_space (rev t) @ '' ##''"
    using x' x(2) by (rule dropWhile_append1)
  have "py_strip (''## '' @ t) = rev (dropWhile is_space (rev t @ '' ##''))"
    by (simp add: py_strip_def)
  also have "\<dots> = ''## '' @ rev (dropWhile is_space (rev t))"
    by (simp only: 1) simp
  finally show ?thesis by (simp add: starts_heading_def)
qed

lemma heading_flush_fires:
  "flush_on_heading mn l p st \<Longrightarrow>
   heading_flush mn l p st = (fst st @ [py_strip (fst (snd st))], [], 0)"
  by (cases st) (simp add: flush_on_heading_def heading_flush_def)

lemma heading_flush_idle:
  "\<not> flush_on_heading mn l p st \<Longrightarrow> heading_flush mn l p st = st"
  by (cases st) (simp add: flush_on_heading_def heading_flush_def)

subsection \<open>The groups of fragments behind the chunks\<close>

lemma nospace_append [simp]: "nospace (a @ b) = nospace a @ nospace b"
  by (simp add: nospace_def)

lemma nospace_Nil [simp]: "nospace [] = []"
  by (simp add: nospace_def)

lemma nospace_NL [simp]: "nospace [NL] = []"
  by (simp add: nospace_def)

lemma nospace_dropWhile: "nospace (dropWhile is_space s) = nospace s"
  by (induction s) (simp_all add: nospace_def)

lemma nospace_rev: "nospace (rev s) = rev (nospace s)"
  by (simp add: nospace_def rev_filter)

lemma nospace_strip [simp]: "nospace (py_strip s) = nospace s"
  by (simp add: py_strip_def nospace_rev nospace_dropWhile)

lemma nospace_Nil_iff: "nospace s = [] \<longleftrightarrow> word_count s = 0"
  by (simp add: nospace_def word_count_def py_split_Nil_iff filter_empty_conv)

lemma total_words_simps [simp]:
  "total_words [] = 0"
  "total_words (p # ps) = word_count p + total_words ps"
  "total_words (a @ b) = total_words a + total_words b"
  by (simp_all add: total_words_def)

lemma heading_flush_inv:
  assumes "loop_inv mn st gs g"
  shows "\<exists>gs' g'. loop_inv mn (heading_flush mn l p st) gs' g' \<and> concat gs' @ g' = concat gs @ g"
proof (cases st)
  case (fields chunks cur cnt)
  show ?thesis
  proof (cases "starts_heading l p \<and> mn \<le> cnt")
    case True
    with assms fields have "loop_inv mn (heading_flush mn l p st) (gs @ [g]) []"
      by (simp add: loop_inv_def heading_flush_def list_all2_appendI)
    then show ?thesis by (intro exI [of _ "gs @ [g]"] exI [of _ "[]"]) simp
  next
    case False
    with assms fields have "loop_inv mn (heading_flush mn l p st) gs g"
      by (auto simp: loop_inv_def heading_flush_def)
    then show ?thesis by blast
  qed
qed

lemma add_piece_inv:
  assumes "loop_inv mn st gs g"
  shows "\<exists>gs' g'. loop_inv mn (add_piece mn mx p st) gs' g' \<and>
                  concat gs' @ g' = concat gs @ g @ [p]"
proof (cases st)
  case (fields chunks cur cnt)
  show ?thesis
  proof (cases "cnt + word_count p > mx \<and> mn \<le> cnt")
    case True
    with assms fields have "loop_inv mn (add_piece mn mx p st) (gs @ [g]) [p]"
      by (simp add: loop_inv_def add_piece_def list_all2_appendI)
    then show ?thesis by (intro exI [of _ "gs @ [g]"] exI [of _ "[p]"]) simp
  next
    case False
    with assms fields have "loop_inv mn (add_piece mn mx p st) gs (g @ [p])"
      by (auto simp: loop_inv_def add_piece_def)
    then show ?thesis by (intro exI [of _ gs] exI [of _ "g @ [p]"]) simp
  qed
qed

lemma chunk_loop_inv:
  assumes "loop_inv mn st gs g"
  shows "\<exists>gs' g'. loop_inv mn (chunk_loop mn mx l pieces st) gs' g' \<and>
                  concat gs' @ g' = concat gs @ g @ pieces"
  using assms
proof (induction pieces arbitrary: st gs g)
  case Nil
  then show ?case by auto
next
  case (Cons p pieces)
  from heading_flush_inv [OF Cons.prems, of l p] obtain gs1 g1 where
    1: "loop_inv mn (heading_flush mn l p st) gs1 g1" and e1: "concat gs1 @ g1 = concat gs @ g"
    by blast
  from add_piece_inv [OF 1, of mx p] obtain gs2 g2 where
    2: "loop_inv mn (add_piece mn mx p (heading_flush mn l p st)) gs2 g2" and
    e2: "concat gs2 @ g2 = concat gs1 @ g1 @ [p]"
    by blast
  from Cons.IH [OF 2] obtain gs3 g3 where
    3: "loop_inv mn (chunk_loop mn mx l pieces (add_piece mn mx p (heading_flush mn l p st))) gs3 g3"
    and e3: "concat gs3 @ g3 = concat gs2 @ g2 @ pieces"
    by blast
  from e1 e2 e3 have "concat gs3 @ g3 = concat gs @ g @ p # pieces"
    by (metis append.assoc append_Cons append_Nil)
  with 3 show ?case by auto
qed

lemma create_chunks_groups:
  "\<exists>groups.
     (create_chunks mn mx mf pieces l \<noteq> [] \<longrightarrow> concat groups = pieces) \<and>
     list_all2 built_from (create_chunks mn mx mf pieces l) groups \<and>
     (\<forall>k < length groups. mn \<le> total_words (groups ! k) \<or>
        (Suc k = length groups \<and> (mf \<le> total_words (groups ! k) \<or> k = 0)))"
proof -
  obtain chunks cur cnt where st: "chunk_loop mn mx l pieces ([], [], 0) = (chunks, cur, cnt)"
    by (cases "chunk_loop mn mx l pieces ([], [], 0)")
  have "loop_inv mn ([], [], 0) [] []" by (simp add: loop_inv_def)
  from chunk_loop_inv [OF this, of mx l pieces] st obtain gs g where
    inv: "loop_inv mn (chunks, cur, cnt) gs g" and cover: "concat gs @ g = pieces"
    by auto
  from inv have all: "list_all2 (\<lambda>c grp. nospace c = nospace (concat grp) \<and> mn \<le> total_words grp) chunks gs"
    and cur: "nospace cur = nospace (concat g)" and cnt: "cnt = total_words g"
    by (simp_all add: loop_inv_def)
  from all have built: "list_all2 built_from chunks gs"
    by (simp add: built_from_def list_all2_conv_all_nth)
  from all have big: "\<forall>k < length gs. mn \<le> total_words (gs ! k)"
    by (simp add: list_all2_conv_all_nth)
  from all have len: "length chunks = length gs" by (rule list_all2_lengthD)
  have out: "create_chunks mn mx mf pieces l = last_chunk mf (chunks, cur, cnt)"
    by (simp add: create_chunks_def st)
  \<comment> \<open>the remainder joins the last group\<close>
  have joined: "\<exists>groups. concat groups = pieces \<and>
      list_all2 built_from (butlast chunks @ [last chunks @ extra]) groups \<and>
      (\<forall>k < length groups. mn \<le> total_words (groups ! k))"
    if ne: "chunks \<noteq> []" and extra: "nospace extra = nospace cur" for extra
  proof -
    from ne obtain ch0 cl where ch: "chunks = ch0 @ [cl]" by (cases chunks rule: rev_cases) auto
    with len obtain gs0 gl where gs: "gs = gs0 @ [gl]" by (cases gs rule: rev_cases) auto
    from len ch gs have l0: "length ch0 = length gs0" by simp
    from all ch gs have a0: "list_all2 (\<lambda>c grp. nospace c = nospace (concat grp) \<and> mn \<le> total_words grp) ch0 gs0"
      and al: "nospace cl = nospace (concat gl)" "mn \<le> total_words gl"
      by (simp_all add: list_all2_append [OF l0])
    let ?groups = "gs0 @ [gl @ g]"
    have "concat ?groups = pieces" using cover gs by simp
    moreover have "list_all2 built_from (butlast chunks @ [last chunks @ extra]) ?groups"
    proof -
      have "list_all2 built_from ch0 gs0"
        using a0 by (rule list_all2_mono) (simp add: built_from_def)
      moreover have "built_from (cl @ extra) (gl @ g)"
        using al extra cur by (simp add: built_from_def)
      ultimately show ?thesis by (simp add: ch list_all2_appendI)
    qed
    moreover have "\<forall>k < length ?groups. mn \<le> total_words (?groups ! k)"
      using a0 al by (auto simp: nth_append list_all2_conv_all_nth)
    ultimately show ?thesis by blast
  qed
  show ?thesis
  proof (cases "py_strip cur = []")
    case True
    then have empty: "nospace cur = []" by (simp add: py_strip_Nil_iff nospace_Nil_iff)
    show ?thesis
    proof (cases "chunks = []")
      case True
      with \<open>py_strip cur = []\<close> have "create_chunks mn mx mf pieces l = []"
        by (simp add: out last_chunk_def)
      then show ?thesis by (intro exI [of _ "[]"]) simp
    next
      case False
      from joined [OF False, of "[]"] empty obtain groups where
        g: "concat groups = pieces" "list_all2 built_from (butlast chunks @ [last chunks]) groups"
          "\<forall>k < length groups. mn \<le> total_words (groups ! k)"
        by auto
      from False \<open>py_strip cur = []\<close> have "create_chunks mn mx mf pieces l = butlast chunks @ [last chunks]"
        by (simp add: out last_chunk_def)
      with g show ?thesis by (intro exI [of _ groups]) simp
    qed
  next
    case False
    show ?thesis
    proof (cases "cnt < mf \<and> chunks \<noteq> []")
      case True
      have "nospace (NL # py_strip cur) = nospace cur"
        using nospace_append [of "[NL]" "py_strip cur"] by simp
      from joined [OF _ this] True obtain groups where
        g: "concat groups = pieces"
          "list_all2 built_from (butlast chunks @ [last chunks @ NL # py_strip cur]) groups"
          "\<forall>k < length groups. mn \<le> total_words (groups ! k)"
        by blast
      from True False have "create_chunks mn mx mf pieces l =
          butlast chunks @ [last chunks @ NL # py_strip cur]"
        by (simp add: out last_chunk_def)
      with g show ?thesis by (intro exI [of _ groups]) simp
    next
      case nomerge: False
      let ?groups = "gs @ [g]"
      from False nomerge have o: "create_chunks mn mx mf pieces l = chunks @ [py_strip cur]"
        by (auto simp: out last_chunk_def)
      have "concat ?groups = pieces" using cover by simp
      moreover have "list_all2 built_from (chunks @ [py_strip cur]) ?groups"
        using built cur by (simp add: list_all2_appendI built_from_def)
      moreover have "\<forall>k < length ?groups. mn \<le> total_words (?groups ! k) \<or>
          (Suc k = length ?groups \<and> (mf \<le> total_words (?groups ! k) \<or> k = 0))"
        using big nomerge cnt len by (auto simp: nth_append)
      ultimately show ?thesis unfolding o by blast
    qed
  qed
qed

subsection \<open>The characters of the document are kept\<close>

text \<open>Whatever the splitter does to the whitespace, the chunks, one after the other,
  hold the characters of the document other than whitespace, in order.\<close>

lemma split_from_concat: "concat (split_from l nl s) = s"
proof (induction l nl s rule: split_from.induct)
  case (1 l nl)
  then show ?case by simp
next
  case (2 l nl c cs)
  show ?case
  proof (cases "nl \<and> heading_at l (c # cs)")
    case True
    with "2.IH"(1) show ?thesis
      using heading_text_rest [of l "c # cs"] by simp
  next
    case False
    with "2.IH"(2) show ?thesis
      by (cases "split_from l (c = NL) cs") auto
  qed
qed

lemma split_paragraphs_nospace: "nospace (concat (split_paragraphs s)) = nospace s"
proof (induction s rule: split_paragraphs.induct)
  case 1
  then show ?case by simp
next
  case (2 c)
  then show ?case by simp
next
  case (3 a b cs)
  show ?case
  proof (cases "a = NL \<and> b = NL")
    case True
    with 3 show ?thesis by (simp add: nospace_def)
  next
    case False
    with 3 show ?thesis
      by (cases "split_paragraphs (b # cs)") (auto simp: nospace_def)
  qed
qed

lemma chunk_loop_nospace:
  "chunk_loop mn mx l pieces (chunks, cur, cnt) = (chunks', cur', cnt') \<Longrightarrow>
   nospace (concat chunks') @ nospace cur' =
     nospace (concat chunks) @ nospace cur @ nospace (concat pieces)"
proof (induction pieces arbitrary: chunks cur cnt)
  case Nil
  then show ?case by simp
next
  case (Cons p pieces)
  obtain c1 u1 n1 where 1: "heading_flush mn l p (chunks, cur, cnt) = (c1, u1, n1)"
    by (cases "heading_flush mn l p (chunks, cur, cnt)")
  obtain c2 u2 n2 where 2: "add_piece mn mx p (c1, u1, n1) = (c2, u2, n2)"
    by (cases "add_piece mn mx p (c1, u1, n1)")
  from 1 have e1: "nospace (concat c1) @ nospace u1 = nospace (concat chunks) @ nospace cur"
    by (auto simp: heading_flush_def split: if_splits)
  from 2 have e2: "nospace (concat c2) @ nospace u2 =
      nospace (concat c1) @ nospace u1 @ nospace p"
    by (auto simp: add_piece_def split: if_splits)
  from Cons.prems have "chunk_loop mn mx l pieces (c2, u2, n2) = (chunks', cur', cnt')"
    by (simp add: 1 2)
  from Cons.IH [OF this] e1 e2 show ?case by simp
qed

lemma last_chunk_nospace:
  "nospace (concat (last_chunk mf (chunks, cur, cnt))) = nospace (concat chunks) @ nospace cur"
proof (cases "py_strip cur = []")
  case True
  then have "nospace cur = []" by (simp add: py_strip_Nil_iff nospace_Nil_iff)
  with True show ?thesis by (simp add: last_chunk_def)
next
  case False
  show ?thesis
  proof (cases "cnt < mf \<and> chunks \<noteq> []")
    case True
    then obtain ch0 cl where ch: "chunks = ch0 @ [cl]"
      by (cases chunks rule: rev_cases) auto
    from True False show ?thesis
      using nospace_append [of "[NL]" "py_strip cur"] by (simp add: last_chunk_def ch)
  next
    case nomerge: False
    with False show ?thesis by (auto simp: last_chunk_def)
  qed
qed

lemma create_chunks_nospace:
  "nospace (concat (create_chunks mn mx mf pieces l)) = nospace (concat pieces)"
proof -
  obtain chunks cur cnt where st: "chunk_loop mn mx l pieces ([], [], 0) = (chunks, cur, cnt)"
    by (cases "chunk_loop mn mx l pieces ([], [], 0)")
  from chunk_loop_nospace [OF st] show ?thesis
    by (simp add: create_chunks_def st last_chunk_nospace)
qed

lemma concat_map_nospace:
  "(\<And>x. nospace (concat (f x)) = nospace x) \<Longrightarrow>
   nospace (concat (concat (map f xs))) = nospace (concat xs)"
  by (induction xs) simp_all

lemma split_paragraph_level_nospace:
  "nospace (concat (split_paragraph_level mn mx mf c)) = nospace c"
  by (simp add: split_paragraph_level_def create_chunks_nospace split_paragraphs_nospace)

lemma split_h4_level_nospace: "nospace (concat (split_h4_level mn mx mf c)) = nospace c"
  by (simp add: split_h4_level_def concat_map_nospace split_paragraph_level_nospace
      create_chunks_nospace split_by_heading_def split_from_concat)

lemma split_h3_level_nospace: "nospace (concat (split_h3_level mn mx mf c)) = nospace c"
  by (simp add: split_h3_level_def concat_map_nospace split_h4_level_nospace
      create_chunks_nospace split_by_heading_def split_from_concat)

lemma snippets_keep_characters:
  "nospace (concat (obtainTextSnippets__Markdown d mn mx mf)) = nospace d"
  by (simp add: obtainTextSnippets__Markdown_def concat_map_nospace split_h3_level_nospace
      create_chunks_nospace split_by_heading_def split_from_concat)

subsection \<open>The example documents\<close>

lemma word_count_hashes: "word_count ''##'' = 1"
  by (simp add: word_count_def py_split_def is_space_def)

lemma word_count_example_section:
  "word_count (example_section t n) = 1 + word_count t + n"
proof -
  have "example_section t n = ''##'' @ CHR '' '' # (t @ NL # (filler n @ [NL]))"
    by (simp add: example_section_def)
  then have "word_count (example_section t n) =
      word_count ''##'' + word_count (t @ NL # (filler n @ [NL]))"
    by (simp only: word_count_space is_space_blank)
  also have "word_count (t @ NL # (filler n @ [NL])) = word_count t + word_count (filler n @ [NL])"
    by (rule word_count_space) simp
  also have "word_count (filler n @ [NL]) = n"
    using word_count_space [of NL "filler n" "[]"] by simp
  finally show ?thesis by (simp add: word_count_hashes)
qed

lemma word_count_letter: "word_count ''A'' = 1" "word_count ''B'' = 1" "word_count ''C'' = 1"
  by (simp_all add: word_count_def py_split_def is_space_def)

lemma py_split_Cons_nonspace:
  assumes "\<not> is_space c" and "s \<noteq> []" and "\<not> is_space (hd s)"
  shows "py_split (c # s) = (c # hd (py_split s)) # tl (py_split s)"
proof -
  obtain x s' where s: "s = x # s'" using assms(2) by (cases s) auto
  with assms(3) have x: "\<not> is_space x" by simp
  obtain w ws where f: "split_fields s' = w # ws" by (cases "split_fields s'") auto
  show ?thesis using assms(1) x by (simp add: s f py_split_def)
qed

lemma py_split_filler_glued:
  "py_split (filler (Suc a) @ filler (Suc b)) = replicate a ''w'' @ ''ww'' # replicate b ''w''"
proof (induction a)
  case 0
  have "py_split (CHR ''w'' # filler (Suc b)) =
      (CHR ''w'' # hd (py_split (filler (Suc b)))) # tl (py_split (filler (Suc b)))"
    by (rule py_split_Cons_nonspace) simp_all
  then show ?case by (simp add: py_split_filler)
next
  case (Suc a)
  have "py_split (''w'' @ CHR '' '' # (filler (Suc a) @ filler (Suc b))) =
      py_split ''w'' @ py_split (filler (Suc a) @ filler (Suc b))"
    by (rule py_split_space) simp
  moreover have "py_split ''w'' = [''w'']" by (simp add: py_split_def)
  ultimately show ?case using Suc by simp
qed

lemma heading_paragraph_facts:
  "NL \<notin> set heading_paragraph"
  "heading_paragraph \<noteq> []"
  "hd heading_paragraph = CHR '' ''"
  "last heading_paragraph = CHR ''w''"
  by (simp_all add: heading_paragraph_def)

lemma heading_paragraph_words: "word_count heading_paragraph = 102"
proof -
  have "word_count (CHR '' '' # (''##'' @ CHR '' '' # (''Y'' @ CHR '' '' # filler 100))) =
      word_count ''##'' + (word_count ''Y'' + word_count (filler 100))"
    by (simp only: word_count_Cons_space word_count_space is_space_blank)
  moreover have "word_count ''Y'' = 1" by (simp add: word_count_def py_split_def is_space_def)
  ultimately show ?thesis by (simp add: heading_paragraph_def word_count_hashes)
qed

lemma py_strip_Cons_space: "is_space c \<Longrightarrow> py_strip (c # s) = py_strip s"
  by (simp add: py_strip_def)

lemma heading_paragraph_strip: "py_strip heading_paragraph = ''## Y '' @ filler 100"
proof -
  have "py_strip (''## Y '' @ filler 100) = ''## Y '' @ filler 100"
    by (rule py_strip_id) simp_all
  then show ?thesis by (simp add: heading_paragraph_def py_strip_Cons_space)
qed

lemma heading_paragraph_starts: "starts_heading ''##'' heading_paragraph"
  by (simp add: starts_heading_def heading_paragraph_strip)

lemma heading_paragraph_no_match:
  assumes "CHR ''#'' \<notin> set r"
  shows "\<not> has_heading (CHR ''#'' # l) True (heading_paragraph @ r)"
proof -
  have "CHR ''#'' \<notin> set ('' Y '' @ filler 100 @ r)" using assms by simp
  then have "\<not> has_heading (CHR ''#'' # l) False ('' Y '' @ filler 100 @ r)"
    by (rule no_hash_no_heading)
  then show ?thesis
    by (simp add: heading_paragraph_def heading_at_def)
qed

lemma indented_heading_doc_no_match:
  assumes "NL \<notin> set l"
  shows "\<not> has_heading (CHR ''#'' # l) False indented_heading_doc"
proof -
  let ?l = "CHR ''#'' # l"
  have nl: "NL \<notin> set ?l" using assms by simp
  have "has_heading ?l False ((filler 300 @ [NL, NL]) @ heading_paragraph @ NL # NL # filler 150) =
      (has_heading ?l False (filler 300 @ [NL, NL]) \<or>
       has_heading ?l True (heading_paragraph @ NL # NL # filler 150))"
    by (rule has_heading_append [OF _ _ nl]) simp_all
  moreover have "\<not> has_heading ?l False (filler 300 @ [NL, NL])"
    by (rule no_hash_no_heading) simp
  moreover have "\<not> has_heading ?l True (heading_paragraph @ NL # NL # filler 150)"
    by (rule heading_paragraph_no_match) simp
  ultimately show ?thesis by (simp add: indented_heading_doc_def)
qed

lemma indented_heading_doc_words: "word_count indented_heading_doc = 552"
  by (simp add: indented_heading_doc_def heading_paragraph_words)

lemma indented_heading_doc_strip: "py_strip indented_heading_doc = indented_heading_doc"
  by (rule py_strip_id) (simp_all add: indented_heading_doc_def)

lemma indented_heading_doc_paragraphs:
  "split_paragraphs indented_heading_doc = [filler 300, heading_paragraph, filler 150]"
  by (simp add: indented_heading_doc_def split_paragraphs_append split_paragraphs_no_NL
      heading_paragraph_facts)

lemma indented_heading_doc_snippets:
  "text_snippets indented_heading_doc =
     create_chunks 300 500 200 (split_paragraphs indented_heading_doc) ''##''"
  using snippets_no_heading [of indented_heading_doc] indented_heading_doc_no_match
  by (simp add: indented_heading_doc_strip indented_heading_doc_words)

lemma snippets_within_max:
  assumes "\<not> has_heading ''##'' False d" and "0 < word_count d" and "word_count d \<le> 500"
  shows "text_snippets d = [py_strip d]"
proof -
  have sp: "split_by_heading d ''##'' = [d]"
    using assms(1) by (simp add: split_by_heading_def no_heading_split)
  have cc: "create_chunks 300 500 200 [d] ''##'' = [py_strip d]"
    using assms by (simp add: create_chunks_single)
  show ?thesis using assms
    by (simp add: text_snippets_def obtainTextSnippets__Markdown_def sp cc split_h3_level_def)
qed

lemma two_paragraphs_snippets:
  "text_snippets (filler 300 @ NL # NL # filler 300) = [filler 300, filler 300]"
proof -
  let ?d = "filler 300 @ NL # NL # filler 300"
  have hash: "CHR ''#'' \<notin> set ?d" by simp
  have nh: "\<not> has_heading (CHR ''#'' # l) nl ?d" for l nl
    using hash by (rule no_hash_no_heading)
  have strip: "py_strip ?d = ?d" by (rule py_strip_id) simp_all
  have "text_snippets ?d = create_chunks 300 500 200 (split_paragraphs (py_strip ?d)) ''##''"
    by (rule snippets_no_heading) (simp_all add: strip nh)
  also have "\<dots> = [filler 300, filler 300]"
    by (simp add: strip split_paragraphs_append split_paragraphs_no_NL
      create_chunks_def heading_flush_def add_piece_def last_chunk_def
      no_hash_not_heading filler_strip py_strip_snoc_space)
  finally show ?thesis .
qed

lemma two_paragraphs_pass:
  "create_chunks 300 500 200 [filler 300, filler 300] ''##'' = [filler 300, filler 300]"
  by (simp add: create_chunks_def heading_flush_def add_piece_def last_chunk_def
      no_hash_not_heading filler_strip py_strip_snoc_space)

subsection \<open>int() after str()\<close>

lemma of_char_digit: "n < 10 \<Longrightarrow> of_char (char_of (48 + n :: nat) :: char) = 48 + n"
  by (simp add: of_char_of)

lemma is_digit_char_of: "n < 10 \<Longrightarrow> is_digit (char_of (48 + n :: nat))"
  by (simp add: is_digit_def of_char_digit)

lemma digit_val_char_of: "n < 10 \<Longrightarrow> digit_val (char_of (48 + n :: nat)) = n"
  by (simp add: digit_val_def of_char_digit)

lemma str_nat_nonempty [simp]: "str_nat n \<noteq> []"
  by (induction n rule: str_nat.induct) (subst str_nat.simps, simp)

lemma str_nat_digits: "c \<in> set (str_nat n) \<Longrightarrow> is_digit c"
proof (induction n rule: str_nat.induct)
  case (1 n)
  show ?case
  proof (cases "n < 10")
    case True
    with "1.prems" show ?thesis
      by (subst (asm) str_nat.simps) (simp add: is_digit_char_of)
  next
    case False
    with "1.prems" have "c \<in> set (str_nat (n div 10)) \<or> c = char_of (48 + n mod 10)"
      by (subst (asm) str_nat.simps) auto
    with "1.IH" False show ?thesis
      by (auto simp: is_digit_char_of)
  qed
qed

lemma parse_digits_str_nat:
  "parse_digits (str_nat n @ rest) acc b =
     parse_digits rest (acc * 10 ^ length (str_nat n) + n) True"
proof (induction n arbitrary: rest acc b rule: str_nat.induct)
  case (1 n)
  show ?case
  proof (cases "n < 10")
    case True
    then show ?thesis
      by (subst (1 2) str_nat.simps) (simp add: is_digit_char_of digit_val_char_of)
  next
    case False
    have m: "n mod 10 < 10" by simp
    have "parse_digits (str_nat n @ rest) acc b =
          parse_digits (str_nat (n div 10) @ char_of (48 + n mod 10) # rest) acc b"
      using False by (subst str_nat.simps) simp
    also have "\<dots> = parse_digits (char_of (48 + n mod 10) # rest)
                        (acc * 10 ^ length (str_nat (n div 10)) + n div 10) True"
      using "1.IH" [OF False] by simp
    also have "\<dots> = parse_digits rest
        ((acc * 10 ^ length (str_nat (n div 10)) + n div 10) * 10 + n mod 10) True"
      using m by (simp add: is_digit_char_of digit_val_char_of)
    also have "(acc * 10 ^ length (str_nat (n div 10)) + n div 10) * 10 + n mod 10 =
               acc * 10 ^ length (str_nat n) + n"
      using False by (subst (2) str_nat.simps) (simp add: algebra_simps)
    finally show ?thesis .
  qed
qed

lemma parse_str_nat: "parse_digits (str_nat n) 0 False = Some n"
  using parse_digits_str_nat [of n "[]" 0 False] by simp

lemma digit_not_space: "is_digit c \<Longrightarrow> \<not> is_space c"
  by (auto simp: is_digit_def is_space_def)

lemma digit_not_sign: "is_digit c \<Longrightarrow> c \<noteq> CHR ''-'' \<and> c \<noteq> CHR ''+''"
  by (auto simp: is_digit_def)

lemma str_nat_ends: "\<not> is_space (hd (str_nat n))" "\<not> is_space (last (str_nat n))"
  using str_nat_digits [of "hd (str_nat n)" n] str_nat_digits [of "last (str_nat n)" n]
  by (simp_all add: digit_not_space)

lemma py_strip_str_nat: "py_strip (str_nat n) = str_nat n"
  by (rule py_strip_id) (simp_all add: str_nat_ends)

lemma py_strip_minus_str_nat: "py_strip (CHR ''-'' # str_nat n) = CHR ''-'' # str_nat n"
proof (rule py_strip_id)
  show "\<not> is_space (hd (CHR ''-'' # str_nat n))" by (simp add: is_space_def)
  show "\<not> is_space (last (CHR ''-'' # str_nat n))" by (simp add: str_nat_ends)
qed simp

lemma py_int_str: "py_int (py_str i) = Inr i"
proof (cases "i < 0")
  case True
  then show ?thesis
    by (simp add: py_int_def py_str_def py_strip_minus_str_nat parse_str_nat)
next
  case False
  obtain c cs where s: "str_nat (nat i) = c # cs"
    by (cases "str_nat (nat i)") simp_all
  then have "is_digit c" using str_nat_digits [of c "nat i"] by simp
  then have c: "c \<noteq> CHR ''-''" "c \<noteq> CHR ''+''" using digit_not_sign by auto
  have "parse_digits (c # cs) 0 False = Some (nat i)"
    using parse_str_nat [of "nat i"] s by simp
  with False c s show ?thesis
    using py_strip_str_nat [of "nat i"] by (simp add: py_int_def py_str_def)
qed

subsection \<open>The ledger loop\<close>

lemma and_then_Inr [simp]: "and_then (Inr v) f = f v"
  by (simp add: and_then_def)

lemma and_then_Inl [simp]: "and_then (Inl e) f = Inl e"
  by (simp add: and_then_def)

lemma addToExistingRow_ledger_row:
  "ledger_row r \<Longrightarrow> addToExistingRow r w cid = Inr (spec_updated_row w cid r)"
  by (simp add: ledger_row_def addToExistingRow_def py_index_def spec_updated_row_def)

lemma scan_rows_ledger:
  "\<forall>r \<in> set rows. ledger_row r \<Longrightarrow>
   scan_rows u w cid rows (acc, found) =
     Inr (acc @ map (\<lambda>r. if r ! 0 = u then spec_updated_row w cid r else r) rows,
          found \<or> (\<exists>r \<in> set rows. r ! 0 = u))"
proof (induction rows arbitrary: acc found)
  case Nil
  then show ?case by simp
next
  case (Cons r rows)
  then have r: "ledger_row r" and rows: "\<forall>r \<in> set rows. ledger_row r" by simp_all
  from r have i0: "py_index r 0 = Inr (r ! 0)" by (simp add: py_index_def ledger_row_def)
  show ?case
    by (simp add: i0 addToExistingRow_ledger_row [OF r] Cons.IH [OF rows])
qed

lemma recordChunk_spec_record:
  assumes "\<forall>r \<in> set rows. ledger_row r"
  shows "recordChunk current_date u c (header # rows) =
           Inr (spec_record current_date u c (header # rows))"
proof (cases "\<exists>r \<in> set rows. r ! 0 = u")
  case True
  then show ?thesis
    by (simp add: recordChunk_def spec_record_def Let_def scan_rows_ledger [OF assms])
next
  case False
  then have "map (\<lambda>r. if r ! 0 = u then spec_updated_row w cid r else r) rows = rows" for w cid
    by (intro map_idI) auto
  with False show ?thesis
    by (simp add: recordChunk_def spec_record_def Let_def scan_rows_ledger [OF assms]
        addNewRow_def)
qed

lemma id_count_append_id:
  "CHR '','' \<notin> set cid \<Longrightarrow> id_count (ids @ '', '' @ cid) = Suc (id_count ids)"
  by (auto simp: id_count_def filter_empty_conv)

lemma id_count_fresh: "CHR '','' \<notin> set cid \<Longrightarrow> id_count cid = 1"
  by (auto simp: id_count_def filter_empty_conv)

lemma int_value_str [simp]: "int_value (py_str i) = i"
  by (simp add: int_value_def py_int_str)

lemma py_str_1: "py_str 1 = ''1''"
  by code_simp

lemma updated_row_consistent:
  assumes "row_consistent r" and "CHR '','' \<notin> set cid"
  shows "row_consistent (spec_updated_row w cid r)"
  using assms id_count_append_id [of cid "r ! 4"]
  by (simp add: row_consistent_def ledger_row_def spec_updated_row_def py_int_str)

lemma fresh_row_consistent:
  assumes "CHR '','' \<notin> set cid"
  shows "row_consistent [u, d, py_str (int w), ''1'', cid]"
  using assms id_count_fresh [of cid] py_int_str [of 1] py_int_str [of "int w"]
  by (simp add: row_consistent_def ledger_row_def py_str_1 int_value_def)

lemma spec_record_consistent:
  assumes "\<forall>r \<in> set rows. row_consistent r" and "CHR '','' \<notin> set (uuid c)"
  shows "\<exists>rows'. spec_record d u c (header # rows) = header # rows' \<and>
                 (\<forall>r \<in> set rows'. row_consistent r)"
proof -
  let ?cid = "''chunk_'' @ uuid c"
  from assms(2) have cid: "CHR '','' \<notin> set ?cid" by simp
  let ?w = "word_count (content c)"
  show ?thesis
  proof (cases "\<exists>r \<in> set rows. r ! 0 = u")
    case True
    then have "spec_record d u c (header # rows) =
        header # map (\<lambda>r. if r ! 0 = u then spec_updated_row ?w ?cid r else r) rows"
      by (simp add: spec_record_def Let_def)
    moreover have "\<forall>r \<in> set (map (\<lambda>r. if r ! 0 = u then spec_updated_row ?w ?cid r else r) rows).
        row_consistent r"
      using assms(1) updated_row_consistent [OF _ cid] by auto
    ultimately show ?thesis by blast
  next
    case False
    then have "spec_record d u c (header # rows) =
        header # rows @ [[u, d, py_str (int ?w), ''1'', ?cid]]"
      by (simp add: spec_record_def Let_def)
    moreover have "\<forall>r \<in> set (rows @ [[u, d, py_str (int ?w), ''1'', ?cid]]). row_consistent r"
      using assms(1) fresh_row_consistent [OF cid] by auto
    ultimately show ?thesis by blast
  qed
qed

subsection \<open>The list of processed cross-platform pages\<close>

lemma chunkSaveAndTrack_dedup:
  "chunkSaveAndTrack d u c st = Inr st' \<Longrightarrow> dedup st' = dedup st"
  by (auto simp: chunkSaveAndTrack_def and_then_def split: sum.splits)

lemma save_snippets_dedup:
  "save_snippets env u kws t snippets st = Inr st' \<Longrightarrow> dedup st' = dedup st"
proof (induction snippets arbitrary: st)
  case Nil
  then show ?case by simp
next
  case (Cons s snippets)
  then show ?case
    by (auto simp: Let_def and_then_def split: sum.splits dest!: chunkSaveAndTrack_dedup)
qed

lemma chunkizeLearningPath_dedup:
  "chunkizeLearningPath env r t kws st = Inr st' \<Longrightarrow> dedup st' = dedup st"
  by (auto simp: chunkizeLearningPath_def Let_def split: option.splits if_splits
      dest: save_snippets_dedup)

lemma chunkize_all_dedup:
  "chunkize_all env links st = Inr st' \<Longrightarrow> dedup st' = dedup st"
proof (induction links arbitrary: st)
  case Nil
  then show ?case by simp
next
  case (Cons l links)
  obtain h t k where l: "l = (h, t, k)" by (cases l)
  from Cons show ?case
    by (auto simp: l and_then_def split: sum.splits dest!: chunkizeLearningPath_dedup)
qed

lemma processLearningPath_grows:
  "processLearningPath env u ty st = Inr st' \<Longrightarrow> set (dedup st) \<subseteq> set (dedup st')"
  by (auto simp: processLearningPath_def dedup_gate_def split: if_splits
      dest!: chunkize_all_dedup)

lemma processLearningPath_adds:
  "processLearningPath env u ''Learning Path'' st = Inr st' \<Longrightarrow>
   py_in ''cross-platform'' u \<Longrightarrow> u \<in> set (dedup st')"
  by (auto simp: processLearningPath_def dedup_gate_def split: if_splits
      dest!: chunkize_all_dedup)

lemma process_all_grows:
  "process_all env calls st = Inr st' \<Longrightarrow> set (dedup st) \<subseteq> set (dedup st')"
proof (induction calls arbitrary: st)
  case Nil
  then show ?case by simp
next
  case (Cons call calls)
  obtain u ty where call: "call = (u, ty)" by (cases call)
  from Cons.prems obtain st1 where
    1: "processLearningPath env u ty st = Inr st1" and 2: "process_all env calls st1 = Inr st'"
    by (auto simp: call and_then_def split: sum.splits)
  from processLearningPath_grows [OF 1] Cons.IH [OF 2] show ?case by blast
qed

subsection \<open>Lower case\<close>

lemma py_lower_join: "py_lower (py_join sep xs) = py_join (py_lower sep) (map py_lower xs)"
  by (induction sep xs rule: py_join.induct) (simp_all add: py_lower_def)

lemma py_lower_separator: "py_lower '', '' = '', ''"
  by (simp add: py_lower_def py_lower_char_def)

lemma lower_ARM: "py_lower ''ARM'' = ''arm''"
  by code_simp

lemma lower_arm: "py_lower ''arm'' = ''arm''"
  by (simp add: py_lower_def py_lower_char_def)

section \<open>The splitter\<close>




text \<open>
  Claim C2 fails on the code. Three paragraphs of 300, 250 and 50 words: the second
  paragraph starts a new chunk through the \<open>max_words\<close> branch, which stores the stripped
  paragraph with no newline after it, so the third paragraph is appended to its last word.
  The document has 600 words \<open>w\<close>; the chunks have 598 words \<open>w\<close> and one word \<open>ww\<close>.
  (No character other than whitespace is lost, by \<open>snippets_keep_characters\<close>: what is
  lost is the boundary between two words.)
\<close>

theorem glued_paragraphs:
  "text_snippets (filler 300 @ NL # NL # filler 250 @ NL # NL # filler 50) =
     [filler 300, filler 250 @ filler 50] \<and>
   py_split (filler 300 @ NL # NL # filler 250 @ NL # NL # filler 50) = replicate 600 ''w'' \<and>
   concat (map py_split [filler 300, filler 250 @ filler 50]) =
     replicate 549 ''w'' @ ''ww'' # replicate 49 ''w''"
proof -
  let ?d = "filler 300 @ NL # NL # filler 250 @ NL # NL # filler 50"
  have hash: "CHR ''#'' \<notin> set ?d" by simp
  have nh: "\<not> has_heading (CHR ''#'' # l) nl ?d" for l nl
    using hash by (rule no_hash_no_heading)
  have wc: "word_count ?d = 600" by simp
  have strip: "py_strip ?d = ?d" by (rule py_strip_id) simp_all
  have strip2: "py_strip (filler 250 @ filler 50) = filler 250 @ filler 50"
    by (rule py_strip_id) simp_all
  have strip3: "py_strip (filler 250 @ filler 50 @ [NL]) = filler 250 @ filler 50"
    using py_strip_snoc_space [of NL "filler 250 @ filler 50"] strip2 by simp
  have "text_snippets ?d = create_chunks 300 500 200 (split_paragraphs (py_strip ?d)) ''##''"
    by (rule snippets_no_heading) (simp_all add: strip nh)
  also have "\<dots> = [filler 300, filler 250 @ filler 50]"
    by (simp add: strip split_paragraphs_append split_paragraphs_no_NL
      create_chunks_def heading_flush_def add_piece_def last_chunk_def
      no_hash_not_heading filler_strip py_strip_snoc_space strip3)
  finally have 1: "text_snippets ?d = [filler 300, filler 250 @ filler 50]" .
  have 2: "py_split ?d = replicate 600 ''w''"
    by (simp add: py_split_space py_split_filler flip: replicate_add)
  have "py_split (filler (Suc 249) @ filler (Suc 49)) =
      replicate 249 ''w'' @ ''ww'' # replicate 49 ''w''"
    by (rule py_split_filler_glued)
  then have "concat (map py_split [filler 300, filler 250 @ filler 50]) =
      replicate 300 ''w'' @ replicate 249 ''w'' @ ''ww'' # replicate 49 ''w''"
    by (simp add: py_split_filler)
  then have 3: "concat (map py_split [filler 300, filler 250 @ filler 50]) =
      replicate 549 ''w'' @ ''ww'' # replicate 49 ''w''"
    by (simp flip: replicate_add append_assoc)
  from 1 2 3 show ?thesis by blast
qed




text \<open>
  Claim C4, as amended. With the thresholds 300, 500 and 200: a document in which the
  level-2 pattern matches nowhere, with at least \<open>min_final_words\<close> and at most
  \<open>max_words\<close> words, gives exactly one chunk, the document stripped of surrounding
  whitespace. (Above \<open>max_words\<close> the document is cut at blank lines, see the
  counterexample.)
\<close>

theorem no_heading_within_max_one_chunk:
  assumes "\<not> has_heading ''##'' False d" and "200 \<le> word_count d" and "word_count d \<le> 500"
  shows "text_snippets d = [py_strip d]"
proof -
  have pieces: "split_by_heading d ''##'' = [d]"
    using assms(1) by (simp add: split_by_heading_def no_heading_split)
  have pass: "create_chunks 300 500 200 [d] ''##'' = [py_strip d]"
    using assms by (simp add: create_chunks_single)
  show ?thesis using assms
    by (simp add: text_snippets_def obtainTextSnippets__Markdown_def pieces pass
        split_h3_level_def)
qed

text \<open>The theorem at a document of 200 words.\<close>

theorem no_heading_within_max_one_chunk_witness:
  "\<not> has_heading ''##'' False (filler 200) \<and> 200 \<le> word_count (filler 200) \<and>
   word_count (filler 200) \<le> 500 \<and> text_snippets (filler 200) = [py_strip (filler 200)]"
  using no_heading_within_max_one_chunk [of "filler 200"]
  by (simp add: no_hash_no_heading)

text \<open>
  Claim C4 as stated fails: two paragraphs of 300 words each, with no heading marker of
  any level, have 600 words (at least \<open>min_final_words\<close>) and give two chunks.
\<close>

theorem no_heading_two_chunks_counterexample:
  "\<not> has_heading ''##'' False (filler 300 @ NL # NL # filler 300) \<and>
   \<not> has_heading ''###'' False (filler 300 @ NL # NL # filler 300) \<and>
   \<not> has_heading ''####'' False (filler 300 @ NL # NL # filler 300) \<and>
   200 \<le> word_count (filler 300 @ NL # NL # filler 300) \<and>
   text_snippets (filler 300 @ NL # NL # filler 300) = [filler 300, filler 300]"
proof -
  let ?d = "filler 300 @ NL # NL # filler 300"
  have "CHR ''#'' \<notin> set ?d" by simp
  then have "\<not> has_heading (CHR ''#'' # l) nl ?d" for l nl
    by (rule no_hash_no_heading)
  moreover have "word_count ?d = 600" by simp
  ultimately show ?thesis using two_paragraphs_snippets by simp
qed

text \<open>
  Claim C5, as amended. A document with at least one word and fewer than
  \<open>min_final_words\<close> words gives exactly one chunk, whatever its headings, and the chunk
  has the words of the document. The thresholds are any with
  \<open>min_final_words \<le> min_words\<close> whose \<open>max_words\<close> the document does not exceed, as 300, 500
  and 200 are.
\<close>

theorem short_document_one_chunk:
  assumes "0 < word_count d" and "word_count d < mf" and "mf \<le> mn" and "word_count d \<le> mx"
  shows "\<exists>c. obtainTextSnippets__Markdown d mn mx mf = [c] \<and> py_split c = py_split d"
proof -
  let ?pieces = "split_by_heading d ''##''"
  let ?cur = "concat (map (\<lambda>p. p @ [NL]) ?pieces)"
  have total: "sum_list (map word_count ?pieces) = word_count d"
    by (rule split_by_heading_word_count)
  have loop: "chunk_loop mn mx ''##'' ?pieces ([], [], 0) = ([], ?cur, word_count d)"
    using chunk_loop_no_flush [of 0 ?pieces mn mx "''##''" "[]" "[]"] total assms by simp
  have words: "py_split ?cur = py_split d"
    by (simp only: py_split_joined_Nil split_by_heading_words)
  then have wc: "word_count ?cur = word_count d" by (simp add: word_count_def)
  with assms have ne: "py_strip ?cur \<noteq> []" by (simp add: py_strip_Nil_iff)
  have cc: "create_chunks mn mx mf ?pieces ''##'' = [py_strip ?cur]"
    using ne by (simp add: create_chunks_def loop last_chunk_def)
  have "obtainTextSnippets__Markdown d mn mx mf = [py_strip ?cur]"
    using assms wc by (simp add: obtainTextSnippets__Markdown_def cc split_h3_level_def)
  with words show ?thesis by simp
qed

text \<open>The theorem at a three-word document with a level-2 heading, default thresholds.\<close>

theorem short_document_one_chunk_witness:
  "0 < word_count (''a'' @ [NL] @ ''## b'') \<and> word_count (''a'' @ [NL] @ ''## b'') < 200 \<and>
   (200::nat) \<le> 300 \<and> word_count (''a'' @ [NL] @ ''## b'') \<le> 500 \<and>
   (\<exists>c. obtainTextSnippets__Markdown (''a'' @ [NL] @ ''## b'') 300 500 200 = [c] \<and>
        py_split c = py_split (''a'' @ [NL] @ ''## b''))"
proof -
  let ?d = "''a'' @ [NL] @ ''## b''"
  have wc: "word_count ?d = 3"
    by (simp add: word_count_def py_split_def is_space_def)
  then have h1: "0 < word_count ?d" and h2: "word_count ?d < 200" and h4: "word_count ?d \<le> 500"
    by simp_all
  have h3: "(200::nat) \<le> 300" by simp
  show ?thesis
    using short_document_one_chunk [OF h1 h2 h3 h4] h1 h2 h4 by simp
qed

text \<open>Claim C5 as stated fails at the empty document: no word, and no chunk.\<close>

theorem empty_document_counterexample:
  "word_count [] < 200 \<and> text_snippets [] = []"
  by (simp add: text_snippets_def obtainTextSnippets__Markdown_def split_by_heading_def
      create_chunks_def heading_flush_def add_piece_def last_chunk_def starts_heading_def
      py_strip_def is_space_def)

text \<open>
  Claim C6. A document of three level-2 sections of 350, 180 and 120 words (each section
  a heading line with a title and a body with no further level-2 heading line, the first
  two ending with a newline) gives, with the thresholds 300, 500 and 200, exactly two
  chunks: the first is section 1 (stripped); the second is sections 2 and 3 with one more
  newline after each heading line and between the sections (stripped), so it has the
  words of sections 2 and 3, in order.
\<close>

theorem three_sections_two_chunks:
  assumes s1: "s1 = ''## '' @ t1 @ NL # b1" "NL \<notin> set t1" "\<not> has_heading ''##'' True b1"
      "last s1 = NL" "word_count s1 = 350"
    and s2: "s2 = ''## '' @ t2 @ NL # b2" "NL \<notin> set t2" "0 < word_count t2"
      "\<not> has_heading ''##'' True b2" "last s2 = NL" "word_count s2 = 180"
    and s3: "s3 = ''## '' @ t3 @ NL # b3" "NL \<notin> set t3" "0 < word_count t3"
      "\<not> has_heading ''##'' True b3" "word_count s3 = 120"
  shows "\<exists>c2. text_snippets (s1 @ s2 @ s3) = [py_strip s1, c2] \<and>
              c2 = py_strip (''## '' @ t2 @ NL # NL # b2 @ NL # ''## '' @ t3 @ NL # NL # b3) \<and>
              py_split c2 = py_split (s2 @ s3)"
proof -
  define h2 where "h2 = ''## '' @ t2"
  define h3 where "h3 = ''## '' @ t3"
  define r2 where "r2 = NL # b2"
  define r3 where "r3 = NL # b3"
  have t2: "t2 \<noteq> []" and t3: "t3 \<noteq> []" using s2(3) s3(3) by auto
  have nl: "NL \<notin> set ''##''" by simp
  have s2': "s2 = h2 @ r2" and s3': "s3 = h3 @ r3"
    by (simp_all add: s2(1) s3(1) h2_def h3_def r2_def r3_def)
  \<comment> \<open>the fragments\<close>
  have nh1: "\<not> has_heading ''##'' False s1"
    using has_heading_line [of "''## '' @ t1" "''##''" b1] s1(2,3) by (simp add: s1(1))
  have ne1: "s1 \<noteq> []" by (simp add: s1(1))
  have nh2: "\<not> has_heading ''##'' False r2"
    using s2(4) by (simp add: r2_def heading_at_def)
  have last2: "last r2 = NL" using s2(5) by (simp add: s2(1) r2_def split: if_splits)
  have nh3: "\<not> has_heading ''##'' False r3"
    using s3(4) by (simp add: r3_def heading_at_def)
  have p3: "split_from ''##'' True s3 = [[], h3, r3]"
    using split_from_heading_line [OF nl t3 s3(2), of b3] s3(4)
    by (simp add: s3(1) h3_def r3_def no_heading_split)
  have p23: "split_from ''##'' True (s2 @ s3) = [[], h2, r2, h3, r3]"
  proof -
    have "split_from ''##'' True (s2 @ s3) =
        [] # h2 # (NL # hd (split_from ''##'' True (b2 @ s3))) # tl (split_from ''##'' True (b2 @ s3))"
      using split_from_heading_line [OF nl t2 s2(2), of "b2 @ s3"]
      by (simp add: s2(1) h2_def)
    moreover have "split_from ''##'' True (b2 @ s3) = b2 # [h3, r3]"
    proof (cases "b2 = []")
      case True
      then show ?thesis by (simp add: p3)
    next
      case False
      with s2(5) have "last b2 = NL" by (simp add: s2(1))
      from split_from_append [OF False this nl s2(4), of s3] show ?thesis by (simp add: p3)
    qed
    ultimately show ?thesis by (simp add: r2_def)
  qed
  have pieces: "split_by_heading (s1 @ s2 @ s3) ''##'' = [s1, h2, r2, h3, r3]"
    using split_from_append [OF ne1 s1(4) nl nh1, of "s2 @ s3"]
    by (simp add: split_by_heading_def p23)
  \<comment> \<open>the word counts\<close>
  have w2: "word_count h2 + word_count r2 = 180"
    using s2(6) by (simp add: s2' r2_def)
  have w3: "word_count h3 + word_count r3 = 120"
    using s3(5) by (simp add: s3' r3_def)
  have hd2: "starts_heading ''##'' h2" unfolding h2_def using s2(3) by (rule starts_heading_title)
  \<comment> \<open>the loop\<close>
  let ?cur = "h2 @ [NL] @ r2 @ [NL] @ h3 @ [NL] @ r3 @ [NL]"
  have "chunk_loop 300 500 ''##'' [s1, h2, r2, h3, r3] ([], [], 0) =
        chunk_loop 300 500 ''##'' [h2, r2, h3, r3] ([], s1 @ [NL], 350)"
    by (subst chunk_loop_append_step) (simp_all add: s1(5))
  also have "\<dots> = chunk_loop 300 500 ''##'' [r2, h3, r3] ([py_strip s1], h2 @ [NL], word_count h2)"
    by (subst chunk_loop_heading_step [OF hd2]) (simp_all add: py_strip_snoc_space)
  also have "\<dots> = chunk_loop 300 500 ''##'' [h3, r3]
      ([py_strip s1], h2 @ [NL] @ r2 @ [NL], word_count h2 + word_count r2)"
    using w2 by (subst chunk_loop_append_step) simp_all
  also have "\<dots> = chunk_loop 300 500 ''##'' [r3]
      ([py_strip s1], h2 @ [NL] @ r2 @ [NL] @ h3 @ [NL], 180 + word_count h3)"
    using w2 by (subst chunk_loop_append_step) simp_all
  also have "\<dots> = chunk_loop 300 500 ''##'' []
      ([py_strip s1], ?cur, 180 + word_count h3 + word_count r3)"
  proof (cases "word_count r3 = 0")
    case True
    then show ?thesis
      using w3 by (subst chunk_loop_plain_step) (simp_all add: no_words_not_heading)
  next
    case False
    then show ?thesis
      using w3 by (subst chunk_loop_append_step) simp_all
  qed
  finally have loop: "chunk_loop 300 500 ''##'' [s1, h2, r2, h3, r3] ([], [], 0) =
      ([py_strip s1], ?cur, 300)"
    using w3 by simp
  have cur_words: "py_split ?cur = py_split h2 @ py_split r2 @ py_split h3 @ py_split r3"
    by (simp add: py_split_space)
  have "py_split (s2 @ s3) = py_split s2 @ py_split s3"
    using s2(5) by (intro py_split_append) (simp add: s2(1))
  also have "\<dots> = py_split h2 @ py_split r2 @ py_split h3 @ py_split r3"
    by (simp add: s2' s3' r2_def r3_def py_split_space)
  finally have words: "py_split (py_strip ?cur) = py_split (s2 @ s3)"
    using cur_words by simp
  have wc_cur: "word_count ?cur = 300"
    using w2 w3 unfolding word_count_def cur_words by simp
  then have ne: "py_strip ?cur \<noteq> []" by (simp add: py_strip_Nil_iff)
  have cc: "create_chunks 300 500 200 [s1, h2, r2, h3, r3] ''##'' = [py_strip s1, py_strip ?cur]"
    using ne unfolding create_chunks_def loop by (simp add: last_chunk_def)
  have "text_snippets (s1 @ s2 @ s3) = [py_strip s1, py_strip ?cur]"
    using wc_cur s1(5)
    by (simp add: text_snippets_def obtainTextSnippets__Markdown_def pieces cc split_h3_level_def)
  moreover have "py_strip ?cur =
      py_strip (''## '' @ t2 @ NL # NL # b2 @ NL # ''## '' @ t3 @ NL # NL # b3)"
    using py_strip_snoc_space [of NL "''## '' @ t2 @ NL # NL # b2 @ NL # ''## '' @ t3 @ NL # NL # b3"]
    by (simp add: h2_def h3_def r2_def r3_def)
  ultimately show ?thesis using words by simp
qed

text \<open>The theorem at sections titled A, B and C with bodies of 348, 178 and 118 words.\<close>

theorem three_sections_two_chunks_witness:
  "word_count (example_section ''A'' 348) = 350 \<and>
   word_count (example_section ''B'' 178) = 180 \<and>
   word_count (example_section ''C'' 118) = 120 \<and>
   \<not> has_heading ''##'' True (filler 348 @ [NL]) \<and>
   (\<exists>c2. text_snippets
            (example_section ''A'' 348 @ example_section ''B'' 178 @ example_section ''C'' 118) =
          [py_strip (example_section ''A'' 348), c2] \<and>
        c2 = py_strip (''## B'' @ NL # NL # filler 178 @ NL # NL # ''## C'' @ NL # NL #
                       filler 118 @ [NL]) \<and>
        py_split c2 = py_split (example_section ''B'' 178 @ example_section ''C'' 118))"
proof -
  have w: "word_count (example_section ''A'' 348) = 350"
      "word_count (example_section ''B'' 178) = 180"
      "word_count (example_section ''C'' 118) = 120"
    by (simp_all add: word_count_example_section word_count_letter)
  have nh: "\<not> has_heading ''##'' True (filler n @ [NL])" for n
    by (rule no_hash_no_heading) simp
  have l: "last (example_section t n) = NL" for t n
    by (simp add: example_section_def)
  have t: "NL \<notin> set ''A''" "NL \<notin> set ''B''" "NL \<notin> set ''C''" by simp_all
  have wt: "0 < word_count ''B''" "0 < word_count ''C''" by (simp_all add: word_count_letter)
  have e: "example_section t n = ''## '' @ t @ NL # (filler n @ [NL])" for t n
    by (simp add: example_section_def)
  from three_sections_two_chunks [OF e t(1) nh l w(1) e t(2) wt(1) nh l w(2) e t(3) wt(2) nh w(3)]
  show ?thesis using w nh by simp
qed

section \<open>The ledger\<close>





section \<open>The deduplication gate\<close>

text \<open>
  Claim C8. A url that does not contain \<open>cross-platform\<close> is always admitted and the
  list is unchanged; a cross-platform url not yet in the list is admitted and added; and
  once a call of \<open>processLearningPath\<close> for a cross-platform url has returned, then after
  any further calls the gate rejects that url and the call for it returns the pipeline
  as it is: no chunk is saved and the ledger is not touched.
\<close>

theorem dedup_gate_contract:
  "(\<not> py_in ''cross-platform'' u \<longrightarrow> dedup_gate u seen = (True, seen)) \<and>
   (py_in ''cross-platform'' u \<and> u \<notin> set seen \<longrightarrow> dedup_gate u seen = (True, seen @ [u])) \<and>
   (py_in ''cross-platform'' u \<and>
    processLearningPath env u ''Learning Path'' st = Inr st1 \<and>
    process_all env calls st1 = Inr st2 \<longrightarrow>
      dedup_gate u (cross_platform_lps_dont_duplicate st2) =
        (False, cross_platform_lps_dont_duplicate st2) \<and>
      processLearningPath env u ''Learning Path'' st2 = Inr st2)"
proof (intro conjI impI)
  show "\<not> py_in ''cross-platform'' u \<Longrightarrow> dedup_gate u seen = (True, seen)"
    by (simp add: dedup_gate_def)
  show "py_in ''cross-platform'' u \<and> u \<notin> set seen \<Longrightarrow> dedup_gate u seen = (True, seen @ [u])"
    by (simp add: dedup_gate_def)
next
  assume a: "py_in ''cross-platform'' u \<and>
    processLearningPath env u ''Learning Path'' st = Inr st1 \<and>
    process_all env calls st1 = Inr st2"
  then have "u \<in> set (dedup st1)" using processLearningPath_adds by blast
  moreover have "set (dedup st1) \<subseteq> set (dedup st2)" using a process_all_grows by blast
  ultimately have u: "u \<in> set (dedup st2)" by blast
  with a show "dedup_gate u (cross_platform_lps_dont_duplicate st2) =
        (False, cross_platform_lps_dont_duplicate st2)"
    by (simp add: dedup_gate_def)
  with a show "processLearningPath env u ''Learning Path'' st2 = Inr st2"
    by (simp add: processLearningPath_def)
qed

text \<open>The theorem at the example site: the page is processed once, another page is
  processed, and the second call for the page changes nothing.\<close>

theorem dedup_gate_contract_witness:
  "\<not> py_in ''cross-platform'' ''https://learn.arm.com/learning-paths/iot/b/'' \<and>
   dedup_gate ''https://learn.arm.com/learning-paths/iot/b/'' [] = (True, []) \<and>
   py_in ''cross-platform'' ''https://learn.arm.com/learning-paths/cross-platform/a/'' \<and>
   ''https://learn.arm.com/learning-paths/cross-platform/a/'' \<notin> set [] \<and>
   dedup_gate ''https://learn.arm.com/learning-paths/cross-platform/a/'' [] =
     (True, [''https://learn.arm.com/learning-paths/cross-platform/a/'']) \<and>
   processLearningPath example_site ''https://learn.arm.com/learning-paths/cross-platform/a/''
     ''Learning Path'' example_start = Inr example_after \<and>
   process_all example_site [(''https://learn.arm.com/learning-paths/iot/b/'', ''Learning Path'')]
     example_after = Inr example_after \<and>
   dedup_gate ''https://learn.arm.com/learning-paths/cross-platform/a/''
     (cross_platform_lps_dont_duplicate example_after) =
     (False, cross_platform_lps_dont_duplicate example_after) \<and>
   processLearningPath example_site ''https://learn.arm.com/learning-paths/cross-platform/a/''
     ''Learning Path'' example_after = Inr example_after"
proof -
  let ?x = "''https://learn.arm.com/learning-paths/iot/b/''"
  let ?u = "''https://learn.arm.com/learning-paths/cross-platform/a/''"
  have a: "\<not> py_in ''cross-platform'' ?x" by code_simp
  have b: "py_in ''cross-platform'' ?u" by code_simp
  have c: "processLearningPath example_site ?u ''Learning Path'' example_start = Inr example_after"
    by code_simp
  have d: "process_all example_site [(?x, ''Learning Path'')] example_after = Inr example_after"
    by code_simp
  have 1: "dedup_gate ?x [] = (True, [])"
    using dedup_gate_contract [where u = ?x and seen = "[]"] a by blast
  have 2: "dedup_gate ?u [] = (True, [?u])"
    using dedup_gate_contract [where u = ?u and seen = "[]"] b by simp
  have 3: "dedup_gate ?u (cross_platform_lps_dont_duplicate example_after) =
             (False, cross_platform_lps_dont_duplicate example_after) \<and>
           processLearningPath example_site ?u ''Learning Path'' example_after = Inr example_after"
    using dedup_gate_contract [where u = ?u and env = example_site and st = example_start
        and ?st1.0 = example_after and ?st2.0 = example_after
        and calls = "[(?x, ''Learning Path'')]"] b c d by blast
  from a b c d 1 2 3 show ?thesis by simp
qed

section \<open>Keywords\<close>

text \<open>
  Claim C9, as amended. The keywords string is the supplied terms in lower case, in the
  supplied order, joined by a comma and a blank, with surrounding whitespace stripped;
  terms are not deduplicated.
\<close>

theorem formatKeywords_lowercase_join:
  "formatKeywords kws = py_strip (py_join '', '' (map py_lower kws))"
proof -
  have join: "py_lower (py_join sep xs) = py_join (py_lower sep) (map py_lower xs)" for sep xs
    by (induction sep xs rule: py_join.induct) (simp_all add: py_lower_def)
  have separator: "py_lower '', '' = '', ''"
    by (simp add: py_lower_def py_lower_char_def)
  show ?thesis
    by (simp add: formatKeywords_def join separator)
qed

text \<open>
  Claim C9 as stated fails: two terms that differ only in case give two entries, where
  the deduplicated keywords of the data model have one.
\<close>

theorem formatKeywords_keeps_duplicates_counterexample:
  "formatKeywords [''ARM'', ''arm''] = ''arm, arm'' \<and>
   spec_keywords [''ARM'', ''arm''] = ''arm'' \<and>
   formatKeywords [''ARM'', ''arm''] \<noteq> spec_keywords [''ARM'', ''arm'']"
proof -
  have "py_strip ''arm, arm'' = ''arm, arm''"
    by (rule py_strip_id) (simp_all add: is_space_def)
  moreover have "py_lower ''ARM, arm'' = ''arm, arm''"
    by code_simp
  ultimately have 1: "formatKeywords [''ARM'', ''arm''] = ''arm, arm''"
    by (simp add: formatKeywords_def)
  have 2: "spec_keywords [''ARM'', ''arm''] = ''arm''"
    using lower_ARM lower_arm by (simp add: spec_keywords_def)
  show ?thesis by (simp only: 1 2) simp
qed

end
